theory Spec2Isabelle
  imports Main "HOL-Library.Sublist" "HOL-Library.AList"
begin

section \<open>JavaScript strings and the regular expressions of the proxy\<close>

text \<open>
  A JavaScript string is a sequence of UTF-16 code units; \<open>length\<close> counts them, which is
  what \<^verbatim>\<open>.length\<close> and \<^verbatim>\<open>.slice\<close> of the source count. ASCII literals are written
  \<open>js ''...''\<close>; the Chinese literals of the source are written as their code units.
\<close>

type_synonym jsstring = "nat list"

definition js :: "string \<Rightarrow> jsstring" where
  "js s = map of_char s"

text \<open>White space as \<^verbatim>\<open>String.prototype.trim\<close> and the class \<^verbatim>\<open>\s\<close> read it.\<close>

definition isSpace :: "nat \<Rightarrow> bool" where
  "isSpace c \<longleftrightarrow>
     c \<in> {9, 10, 11, 12, 13, 32, 160, 5760, 8232, 8233, 8239, 8287, 12288, 65279}
     \<or> (8192 \<le> c \<and> c \<le> 8202)"

definition isLineTerminator :: "nat \<Rightarrow> bool" where
  "isLineTerminator c \<longleftrightarrow> c \<in> {10, 13, 8232, 8233}"

text \<open>The word characters \<^verbatim>\<open>[A-Za-z0-9_]\<close> that decide \<^verbatim>\<open>\b\<close>.\<close>

definition isWordChar :: "nat \<Rightarrow> bool" where
  "isWordChar c \<longleftrightarrow>
     (48 \<le> c \<and> c \<le> 57) \<or> (65 \<le> c \<and> c \<le> 90) \<or> c = 95 \<or> (97 \<le> c \<and> c \<le> 122)"

text \<open>
  Case folding under the flag \<^verbatim>\<open>i\<close> (without \<^verbatim>\<open>u\<close>): a code unit is compared by its
  upper-case form, and a unit outside ASCII is never folded onto an ASCII one. Every
  literal of the source's patterns is ASCII or an uncased CJK unit, so folding the ASCII
  letters decides each comparison as the engine does.
\<close>

definition canonicalize :: "bool \<Rightarrow> nat \<Rightarrow> nat" where
  "canonicalize ic c = (if ic \<and> 97 \<le> c \<and> c \<le> 122 then c - 32 else c)"

definition trim :: "jsstring \<Rightarrow> jsstring" where
  "trim s = rev (dropWhile isSpace (rev (dropWhile isSpace s)))"

text \<open>\<^verbatim>\<open>s.includes(w)\<close>: \<open>w\<close> occurs in \<open>s\<close> as a contiguous run.\<close>

fun js_includes :: "jsstring \<Rightarrow> jsstring \<Rightarrow> bool" where
  "js_includes [] w = (w = [])"
| "js_includes (c # cs) w = (prefix w (c # cs) \<or> js_includes cs w)"

text \<open>\<^verbatim>\<open>xs.join(sep)\<close> on strings.\<close>

fun js_join :: "jsstring \<Rightarrow> jsstring list \<Rightarrow> jsstring" where
  "js_join sep [] = []"
| "js_join sep [x] = x"
| "js_join sep (x # y # ys) = x @ sep @ js_join sep (y # ys)"

text \<open>
  The fragment of regular expressions the source uses: literals, one-unit classes, greedy
  and lazy repetition of a class, the assertions \<^verbatim>\<open>\b\<close>, \<^verbatim>\<open>^\<close> and \<^verbatim>\<open>$\<close>, sequence and
  ordered alternative.
\<close>

datatype rx =
    Lit jsstring
  | Cls "nat \<Rightarrow> bool"
  | Star "nat \<Rightarrow> bool"
  | Lazy "nat \<Rightarrow> bool"
  | WordB
  | Bol
  | Eol
  | Seq rx rx
  | Alt rx rx

text \<open>
  A position in the subject: the unit before it (none at the start) and the text from it
  on. The matcher is a backtracking one in continuation style: \<open>k\<close> is the rest of the
  pattern, and the first success in the engine's order of preference is the answer.
\<close>

type_synonym pos = "nat option \<times> jsstring"

fun lit_match :: "bool \<Rightarrow> jsstring \<Rightarrow> nat option \<Rightarrow> jsstring \<Rightarrow> pos option" where
  "lit_match ic [] p s = Some (p, s)"
| "lit_match ic (w # ws) p [] = None"
| "lit_match ic (w # ws) p (c # cs) =
     (if canonicalize ic w = canonicalize ic c then lit_match ic ws (Some c) cs else None)"

fun star_greedy ::
  "(nat \<Rightarrow> bool) \<Rightarrow> (pos \<Rightarrow> pos option) \<Rightarrow> nat option \<Rightarrow> jsstring \<Rightarrow> pos option" where
  "star_greedy P k p [] = k (p, [])"
| "star_greedy P k p (c # cs) =
     (case (if P c then star_greedy P k (Some c) cs else None) of
        Some r \<Rightarrow> Some r
      | None \<Rightarrow> k (p, c # cs))"

fun star_lazy ::
  "(nat \<Rightarrow> bool) \<Rightarrow> (pos \<Rightarrow> pos option) \<Rightarrow> nat option \<Rightarrow> jsstring \<Rightarrow> pos option" where
  "star_lazy P k p [] = k (p, [])"
| "star_lazy P k p (c # cs) =
     (case k (p, c # cs) of
        Some r \<Rightarrow> Some r
      | None \<Rightarrow> (if P c then star_lazy P k (Some c) cs else None))"

definition atWordBoundary :: "nat option \<Rightarrow> jsstring \<Rightarrow> bool" where
  "atWordBoundary p s \<longleftrightarrow>
     (case p of None \<Rightarrow> False | Some c \<Rightarrow> isWordChar c)
       \<noteq> (case s of [] \<Rightarrow> False | c # _ \<Rightarrow> isWordChar c)"

fun rx_match :: "bool \<Rightarrow> rx \<Rightarrow> (pos \<Rightarrow> pos option) \<Rightarrow> pos \<Rightarrow> pos option" where
  "rx_match ic (Lit w) k (p, s) =
     (case lit_match ic w p s of None \<Rightarrow> None | Some q \<Rightarrow> k q)"
| "rx_match ic (Cls P) k (p, s) =
     (case s of [] \<Rightarrow> None | c # cs \<Rightarrow> if P c then k (Some c, cs) else None)"
| "rx_match ic (Star P) k (p, s) = star_greedy P k p s"
| "rx_match ic (Lazy P) k (p, s) = star_lazy P k p s"
| "rx_match ic WordB k (p, s) = (if atWordBoundary p s then k (p, s) else None)"
| "rx_match ic Bol k (p, s) = (if p = None then k (p, s) else None)"
| "rx_match ic Eol k (p, s) = (if s = [] then k (p, s) else None)"
| "rx_match ic (Seq a b) k q = rx_match ic a (\<lambda>q'. rx_match ic b k q') q"
| "rx_match ic (Alt a b) k q =
     (case rx_match ic a k q of Some r \<Rightarrow> Some r | None \<Rightarrow> rx_match ic b k q)"

text \<open>The length of the match that starts exactly at a position, if there is one.\<close>

definition rx_exec :: "bool \<Rightarrow> rx \<Rightarrow> nat option \<Rightarrow> jsstring \<Rightarrow> nat option" where
  "rx_exec ic r p s =
     (case rx_match ic r Some (p, s) of
        None \<Rightarrow> None
      | Some (p', s') \<Rightarrow> Some (length s - length s'))"

text \<open>\<^verbatim>\<open>re.test(s)\<close>: some position of \<open>s\<close>, the end included, starts a match.\<close>

fun rx_search :: "bool \<Rightarrow> rx \<Rightarrow> nat option \<Rightarrow> jsstring \<Rightarrow> bool" where
  "rx_search ic r p [] = (rx_exec ic r p [] \<noteq> None)"
| "rx_search ic r p (c # cs) =
     (rx_exec ic r p (c # cs) \<noteq> None \<or> rx_search ic r (Some c) cs)"

definition rx_test :: "bool \<Rightarrow> rx \<Rightarrow> jsstring \<Rightarrow> bool" where
  "rx_test ic r s = rx_search ic r None s"

text \<open>
  \<^verbatim>\<open>s.replace(re, '')\<close> with the flag \<^verbatim>\<open>g\<close>: scanning left to right, each match is cut out
  and the scan resumes behind it; an empty match keeps the unit it stands before. The
  assertions of a later match still see the units of the subject as it was.
\<close>

fun removeAll_rx :: "bool \<Rightarrow> rx \<Rightarrow> nat option \<Rightarrow> jsstring \<Rightarrow> jsstring" where
  "removeAll_rx ic r p [] = []"
| "removeAll_rx ic r p (c # cs) =
     (case rx_exec ic r p (c # cs) of
        None \<Rightarrow> c # removeAll_rx ic r (Some c) cs
      | Some n \<Rightarrow>
          if n = 0 then c # removeAll_rx ic r (Some c) cs
          else removeAll_rx ic r (Some ((c # cs) ! (n - 1))) (drop (n - 1) cs))"

section \<open>Noise filtering\<close>

text \<open>
  \<^verbatim>\<open>/\b(Gemini is typing|Gemini replied|U+6B63 U+5728 U+8F93 U+5165.*?)\b/gi\<close>, the pattern
  readAnswerInChunks removes from every raw text.
\<close>

definition typing_rx :: rx where
  "typing_rx =
     Seq WordB (Seq
       (Alt (Lit (js ''Gemini is typing''))
       (Alt (Lit (js ''Gemini replied''))
            (Seq (Lit [27491, 22312, 36755, 20837]) (Lazy (\<lambda>c. \<not> isLineTerminator c)))))
       WordB)"

definition cleanChunk :: "jsstring \<Rightarrow> jsstring" where
  "cleanChunk raw = trim (removeAll_rx True typing_rx None raw)"

text \<open>
  The pattern of waitForFinalAnswer: the same two English phrases and four Chinese ones
  (U+6B63 U+5728 U+8F93 U+5165, U+601D U+8003 U+4E2D, U+751F U+6210 U+4E2D,
  U+52A0 U+8F7D U+4E2D), between word boundaries.
\<close>

definition final_rx :: rx where
  "final_rx =
     Seq WordB (Seq
       (Alt (Lit (js ''Gemini is typing''))
       (Alt (Lit (js ''Gemini replied''))
       (Alt (Lit [27491, 22312, 36755, 20837])
       (Alt (Lit [24605, 32771, 20013])
       (Alt (Lit [29983, 25104, 20013])
            (Lit [21152, 36733, 20013]))))))
       WordB)"

definition cleanFinal :: "jsstring \<Rightarrow> jsstring" where
  "cleanFinal t = trim (removeAll_rx True final_rx None t)"

text \<open>\<^verbatim>\<open>/^[.\u2026\s]+$/\<close>: nothing but dots, ellipsis characters and white space.\<close>

definition dotOrSpace :: "nat \<Rightarrow> bool" where
  "dotOrSpace c \<longleftrightarrow> c = 46 \<or> c = 8230 \<or> isSpace c"

definition ellipsis_rx :: rx where
  "ellipsis_rx = Seq Bol (Seq (Cls dotOrSpace) (Seq (Star dotOrSpace) Eol))"

definition placeholders :: "jsstring list" where
  "placeholders =
     [js ''Gemini is typing'', js ''Gemini replied'',
      [27491, 22312, 36755, 20837], [27491, 22312, 24605, 32771],
      [24605, 32771, 20013], [29983, 25104, 20013], [21152, 36733, 20013]]"

definition isPlaceholderText :: "jsstring \<Rightarrow> bool" where
  "isPlaceholderText t =
     (if t = [] then True
      else let s = trim t;
               onlyEllipsisOrSpace = rx_test False ellipsis_rx s
           in onlyEllipsisOrSpace \<or> list_ex (\<lambda>p. js_includes s p) placeholders)"

section \<open>The surface: reply bubbles and their state\<close>

text \<open>
  What getBubbleState reads of one reply bubble: the text node under it that matches
  BUBBLE_TEXT_SELECTOR, if there is one, as its innerText and textContent; the bubble's
  own innerText and textContent (an absent one is the empty string, equally falsy); and
  whether some spinner selector finds a visible node inside the bubble.
\<close>

record bubble =
  txtNode :: "(jsstring \<times> jsstring) option"
  innerText :: jsstring
  textContent :: jsstring
  spinner :: bool

definition orElse :: "jsstring \<Rightarrow> jsstring \<Rightarrow> jsstring" where
  "orElse a b = (if a \<noteq> [] then a else b)"

definition bubbleText :: "bubble \<Rightarrow> jsstring" where
  "bubbleText b =
     trim (orElse (case txtNode b of None \<Rightarrow> [] | Some (it, tc) \<Rightarrow> it)
          (orElse (case txtNode b of None \<Rightarrow> [] | Some (it, tc) \<Rightarrow> tc)
          (orElse (innerText b) (orElse (textContent b) []))))"

record bubbleState =
  hasBubble :: bool
  btext :: jsstring
  spinning :: bool

definition noBubble :: bubbleState where
  "noBubble = \<lparr>hasBubble = False, btext = [], spinning = False\<rparr>"

text \<open>
  The page at one read: the visible reply bubbles, without duplicates, in the order
  getBubbleState collects them; \<open>None\<close> when page.evaluate rejects, which the source
  catches and answers like an absent bubble.
\<close>

type_synonym dom = "bubble list option"

definition getBubbleState :: "nat \<Rightarrow> dom \<Rightarrow> bubbleState" where
  "getBubbleState base d =
     (case d of
        None \<Rightarrow> noBubble
      | Some list \<Rightarrow>
          if length list \<le> base then noBubble
          else let l = list ! (length list - 1)
               in \<lparr>hasBubble = True, btext = bubbleText l, spinning = spinner l\<rparr>)"

definition grabAnswerText :: "nat \<Rightarrow> dom \<Rightarrow> jsstring" where
  "grabAnswerText baselineCount d = btext (getBubbleState baselineCount d)"

section \<open>Configuration\<close>

record config =
  MAX_ANSWER_MS :: int
  STABLE_MS :: int
  FORCE_ENTER_ONLY :: bool
  SAN_ON :: bool
  SAN_MODE :: jsstring
  SAN_KEEP :: "jsstring list"
  SAN_STRIP_ENV :: bool
  SAN_STRIP_STREAM :: bool
  SAN_STRIP_MODEL :: bool
  SAN_BLOCK_MODELS :: "jsstring list"
  SAN_PRUNE_TOP :: bool
  SAN_LANG :: jsstring

section \<open>Answer capture\<close>

text \<open>
  One pass of a polling loop meets the environment at most four times: the clock in the
  loop condition, the page, the clock when a change is recorded, and the clock in the
  stability test. A poll holds what each of them answers on that pass; a reading the
  pass does not take is left unused.
\<close>

record poll =
  at_loop :: int
  page :: dom
  at_change :: int
  at_stable :: int

text \<open>
  What a capture observes: the two clock readings before the loop (the initial
  lastChangeAt, then t0), the polls in order, and the page at the read that follows the
  streaming loop.
\<close>

record capture_obs =
  at_init :: int
  at_t0 :: int
  polls :: "poll list"
  final_page :: dom

subsection \<open>Streaming: readAnswerInChunks\<close>

text \<open>
  The variables of the generator, with the deltas it has yielded so far in order.
\<close>

record cstate =
  last_s :: jsstring
  lastChangeAt_s :: int
  yielded :: "jsstring list"

datatype phase = Polling | Stable | TimedOut

definition chunk_step :: "config \<Rightarrow> nat \<Rightarrow> int \<Rightarrow> cstate \<Rightarrow> poll \<Rightarrow> phase \<times> cstate" where
  "chunk_step cfg baselineCount t0 s p =
     (if \<not> (at_loop p - t0 < MAX_ANSWER_MS cfg) then (TimedOut, s)
      else let raw = grabAnswerText baselineCount (page p) in
        if raw = [] then (Polling, s)
        else
          let cur = cleanChunk raw;
              s' = (if cur \<noteq> [] \<and> \<not> isPlaceholderText cur \<and> cur \<noteq> last_s s then
                      (let delta = drop (length (last_s s)) cur in
                       if delta \<noteq> [] then
                         s\<lparr>last_s := cur, lastChangeAt_s := at_change p,
                           yielded := yielded s @ [delta]\<rparr>
                       else s)
                    else s)
          in if last_s s' \<noteq> [] \<and> at_stable p - lastChangeAt_s s' \<ge> STABLE_MS cfg
             then (Stable, s') else (Polling, s'))"

fun chunk_loop :: "config \<Rightarrow> nat \<Rightarrow> int \<Rightarrow> cstate \<Rightarrow> poll list \<Rightarrow> phase \<times> cstate" where
  "chunk_loop cfg baselineCount t0 s [] = (Polling, s)"
| "chunk_loop cfg baselineCount t0 s (p # ps) =
     (case chunk_step cfg baselineCount t0 s p of
        (Polling, s') \<Rightarrow> chunk_loop cfg baselineCount t0 s' ps
      | (Stable, s') \<Rightarrow> (Stable, s')
      | (TimedOut, s') \<Rightarrow> (TimedOut, s'))"

definition final_read :: "nat \<Rightarrow> dom \<Rightarrow> cstate \<Rightarrow> jsstring list" where
  "final_read baselineCount d s =
     (let finalClean = cleanChunk (grabAnswerText baselineCount d) in
      if finalClean \<noteq> [] \<and> length finalClean > length (last_s s)
      then yielded s @ [drop (length (last_s s)) finalClean]
      else yielded s)"

definition chunk_init :: "capture_obs \<Rightarrow> cstate" where
  "chunk_init obs = \<lparr>last_s = [], lastChangeAt_s = at_init obs, yielded = []\<rparr>"

text \<open>
  The deltas the generator has yielded, and whether it has finished; it has not when the
  observed polls end while the loop is still running.
\<close>

definition readAnswerInChunks :: "config \<Rightarrow> nat \<Rightarrow> capture_obs \<Rightarrow> jsstring list \<times> bool" where
  "readAnswerInChunks cfg baselineCount obs =
     (case chunk_loop cfg baselineCount (at_t0 obs) (chunk_init obs) (polls obs) of
        (Polling, s) \<Rightarrow> (yielded s, False)
      | (Stable, s) \<Rightarrow> (final_read baselineCount (final_page obs) s, True)
      | (TimedOut, s) \<Rightarrow> (final_read baselineCount (final_page obs) s, True))"

subsection \<open>Aggregate: waitForFinalAnswer\<close>

datatype error = Error jsstring

record wstate =
  lastText :: jsstring
  lastChangeAt :: int
  everHadText :: bool

datatype wctl = Continue wstate | Return jsstring | Expired wstate

definition wait_step :: "config \<Rightarrow> nat \<Rightarrow> int \<Rightarrow> wstate \<Rightarrow> poll \<Rightarrow> wctl" where
  "wait_step cfg baselineCount t0 s p =
     (if \<not> (at_loop p - t0 < MAX_ANSWER_MS cfg) then Expired s
      else
        let st = getBubbleState baselineCount (page p);
            clean = cleanFinal (btext st);
            changed = (clean \<noteq> [] \<and> clean \<noteq> lastText s);
            s' = (if changed
                  then \<lparr>lastText = clean, lastChangeAt = at_change p, everHadText = True\<rparr>
                  else s)
        in if changed \<and> length (lastText s') \<le> 5 \<and> \<not> spinning st then Return (lastText s')
           else if everHadText s' \<and> \<not> spinning st
                   \<and> at_stable p - lastChangeAt s' \<ge> STABLE_MS cfg
                then Return (lastText s')
           else Continue s')"

fun wait_loop :: "config \<Rightarrow> nat \<Rightarrow> int \<Rightarrow> wstate \<Rightarrow> poll list \<Rightarrow> wctl" where
  "wait_loop cfg baselineCount t0 s [] = Continue s"
| "wait_loop cfg baselineCount t0 s (p # ps) =
     (case wait_step cfg baselineCount t0 s p of
        Continue s' \<Rightarrow> wait_loop cfg baselineCount t0 s' ps
      | Return t \<Rightarrow> Return t
      | Expired s' \<Rightarrow> Expired s')"

definition wait_init :: "capture_obs \<Rightarrow> wstate" where
  "wait_init obs = \<lparr>lastText = [], lastChangeAt = at_init obs, everHadText = False\<rparr>"

definition no_text_captured :: error where
  "no_text_captured = Error (js ''no_text_captured'')"

text \<open>
  \<open>None\<close>: the observed polls end while the loop is still running. \<open>Some (Inl e)\<close>: the
  function throws \<open>e\<close>. \<open>Some (Inr t)\<close>: it returns \<open>t\<close>.
\<close>

definition waitForFinalAnswer :: "config \<Rightarrow> nat \<Rightarrow> capture_obs \<Rightarrow> (error + jsstring) option" where
  "waitForFinalAnswer cfg baselineCount obs =
     (case wait_loop cfg baselineCount (at_t0 obs) (wait_init obs) (polls obs) of
        Continue s \<Rightarrow> None
      | Return t \<Rightarrow> Some (Inr t)
      | Expired s \<Rightarrow> Some (if \<not> everHadText s then Inl no_text_captured else Inr (lastText s)))"

section \<open>Submitting the prompt\<close>

text \<open>
  The page answers each call of the submission; an answer is an observation. A call the
  source guards with catch cannot fail for the caller and is observed by its value; a call
  it leaves unguarded (the mouse click of focusAndClear and focusIntoEditable, the timers,
  the query of waitUntilIdle) may reject, and is then observed by the message it rejects
  with.

  After an injection okAfter waits, nudges the editor and asks three questions in turn:
  does the input read back as the prompt (verifyInputMatches), is the send button ready
  (isSendButtonReady), does the input hold any text (hasInputText).
\<close>

record after_obs =
  settled :: bool
  inputMatches :: bool
  sendReady :: bool
  hasText :: bool

text \<open>\<open>None\<close>: the wait rejected and okAfter throws.\<close>

definition okAfter :: "after_obs \<Rightarrow> bool option" where
  "okAfter a =
     (if \<not> settled a then None
      else if inputMatches a then Some True
      else if sendReady a then Some True
      else if hasText a then Some True
      else Some False)"

text \<open>
  What setInputFast observes: for each of the strategies A (execCommand), B (clipboard
  and Ctrl+V) and C (insertText, with typing as its fallback) the click of focusAndClear,
  the injection itself and the checks after it; and the send button at D.
\<close>

record inject_obs =
  clearA :: "jsstring option"
  execA :: "bool option"
  afterA :: after_obs
  clearB :: "jsstring option"
  clipB :: bool
  afterB :: after_obs
  clearC :: "jsstring option"
  insertC :: bool
  afterC :: after_obs
  typeC :: bool
  afterC2 :: after_obs
  readyD :: bool

definition strategyA :: "inject_obs \<Rightarrow> bool" where
  "strategyA i =
     (case execA i of
        None \<Rightarrow> False
      | Some ok \<Rightarrow> ok \<and> okAfter (afterA i) = Some True)"

definition strategyB :: "inject_obs \<Rightarrow> bool" where
  "strategyB i = (clipB i \<and> okAfter (afterB i) = Some True)"

definition strategyC :: "inject_obs \<Rightarrow> bool" where
  "strategyC i =
     (let fallback = (typeC i \<and> okAfter (afterC2 i) = Some True) in
      if insertC i then
        (case okAfter (afterC i) of Some r \<Rightarrow> r | None \<Rightarrow> fallback)
      else fallback)"

definition setInputFast :: "inject_obs \<Rightarrow> error + bool" where
  "setInputFast i =
     (case clearA i of
        Some m \<Rightarrow> Inl (Error m)
      | None \<Rightarrow>
          if strategyA i then Inr True
          else
            (case clearB i of
               Some m \<Rightarrow> Inl (Error m)
             | None \<Rightarrow>
                 if strategyB i then Inr True
                 else
                   (case clearC i of
                      Some m \<Rightarrow> Inl (Error m)
                    | None \<Rightarrow>
                        if strategyC i then Inr True
                        else if readyD i then Inr True
                        else Inr False)))"

text \<open>
  What submitPrompt observes besides: waitUntilIdle, whether pickActiveInput finds the
  input, the count of answer roots before the injection, the settling wait, the clicks of
  focusIntoEditable (taken only under FORCE_ENTER_ONLY), and whether generation is seen
  to start within 4 s of the commit and within 2 s of the second commit.
\<close>

record submit_obs =
  idle :: "jsstring option"
  activeInput :: bool
  beforeCount :: nat
  inject :: inject_obs
  settle :: "jsstring option"
  focus1 :: "jsstring option"
  started :: bool
  focus2 :: "jsstring option"
  started2 :: bool

text \<open>The commit actions submitPrompt attempts, in order.\<close>

datatype commit = PressEnter | ClickSend

definition input_not_found :: error where
  "input_not_found = Error [26410, 25214, 21040, 36755, 20837, 26694]"

definition paste_failed :: error where
  "paste_failed = Error (js ''paste_failed'')"

definition submit_not_started :: error where
  "submit_not_started = Error (js ''submit_not_started'')"

definition second_commit ::
  "config \<Rightarrow> submit_obs \<Rightarrow> commit list \<Rightarrow> (error + nat) \<times> commit list" where
  "second_commit cfg ob acts =
     (if started ob then (Inr (beforeCount ob), acts)
      else if FORCE_ENTER_ONLY cfg then
        (case focus2 ob of
           Some m \<Rightarrow> (Inl (Error m), acts)
         | None \<Rightarrow>
             if started2 ob then (Inr (beforeCount ob), acts @ [PressEnter])
             else (Inl submit_not_started, acts @ [PressEnter]))
      else
        if started2 ob then (Inr (beforeCount ob), acts @ [ClickSend])
        else (Inl submit_not_started, acts @ [ClickSend]))"

text \<open>
  The result of submitPrompt, the baseline or the error thrown, and the commit actions
  attempted on the way.
\<close>

definition submitPrompt ::
  "config \<Rightarrow> jsstring \<Rightarrow> submit_obs \<Rightarrow> (error + nat) \<times> commit list" where
  "submitPrompt cfg prompt ob =
     (case idle ob of
        Some m \<Rightarrow> (Inl (Error m), [])
      | None \<Rightarrow>
          if \<not> activeInput ob then (Inl input_not_found, [])
          else
            (case setInputFast (inject ob) of
               Inl e \<Rightarrow> (Inl e, [])
             | Inr ok \<Rightarrow>
                 if \<not> ok then (Inl paste_failed, [])
                 else
                   (case settle ob of
                      Some m \<Rightarrow> (Inl (Error m), [])
                    | None \<Rightarrow>
                        if FORCE_ENTER_ONLY cfg then
                          (case focus1 ob of
                             Some m \<Rightarrow> (Inl (Error m), [])
                           | None \<Rightarrow> second_commit cfg ob [PressEnter])
                        else second_commit cfg ob [PressEnter, ClickSend])))"

section \<open>Request bodies\<close>

text \<open>
  A parsed JSON value. A number is carried by its rendering as a string
  (Number::toString), which is all the handler can observe of it: it is falsy exactly
  when it renders as 0, and it joins into a prompt as its rendering. An object is the
  list of its keys and values in property order, each key once.
\<close>

datatype jsonval =
    JNull
  | JBool bool
  | JNum jsstring
  | JStr jsstring
  | JArr "jsonval list"
  | JObj "(jsstring \<times> jsonval) list"

text \<open>
  \<^verbatim>\<open>v?.k\<close> for the property names the source reads (stream, messages, content, type,
  text, model): an object has the property when the key is its own, and no other JSON
  value has it.
\<close>

definition getField :: "jsonval \<Rightarrow> jsstring \<Rightarrow> jsonval option" where
  "getField v k = (case v of JObj kvs \<Rightarrow> map_of kvs k | _ \<Rightarrow> None)"

definition truthy :: "jsonval \<Rightarrow> bool" where
  "truthy v =
     (case v of
        JNull \<Rightarrow> False
      | JBool b \<Rightarrow> b
      | JNum r \<Rightarrow> r \<noteq> js ''0''
      | JStr s \<Rightarrow> s \<noteq> []
      | JArr xs \<Rightarrow> True
      | JObj kvs \<Rightarrow> True)"

text \<open>The first error of a list of results, or all their values.\<close>

fun collect :: "(error + 'a) list \<Rightarrow> error + 'a list" where
  "collect [] = Inr []"
| "collect (Inl e # rs) = Inl e"
| "collect (Inr x # rs) = (case collect rs of Inl e \<Rightarrow> Inl e | Inr xs \<Rightarrow> Inr (x # xs))"

definition not_primitive :: error where
  "not_primitive = Error (js ''Cannot convert object to primitive value'')"

text \<open>
  ToString of a JSON value, as Array.prototype.join applies it to the parts of a
  message: an array joins its elements with commas, null elements as empty strings; an
  object renders as \<^verbatim>\<open>[object Object]\<close>, unless a key toString of its own hides the
  inherited method, and then the conversion throws a TypeError.
\<close>

fun toStr :: "jsonval \<Rightarrow> error + jsstring" where
  "toStr JNull = Inr (js ''null'')"
| "toStr (JBool b) = Inr (if b then js ''true'' else js ''false'')"
| "toStr (JNum r) = Inr r"
| "toStr (JStr s) = Inr s"
| "toStr (JArr xs) =
     (case collect (map (\<lambda>x. if x = JNull then Inr [] else toStr x) xs) of
        Inl e \<Rightarrow> Inl e
      | Inr ss \<Rightarrow> Inr (js_join (js '','') ss))"
| "toStr (JObj kvs) =
     (if js ''toString'' \<in> fst ` set kvs then Inl not_primitive
      else Inr (js ''[object Object]''))"

definition partText :: "jsonval \<Rightarrow> jsonval" where
  "partText p =
     (case p of
        JStr s \<Rightarrow> JStr s
      | _ \<Rightarrow>
          if getField p (js ''type'') = Some (JStr (js ''text'')) then
            (case getField p (js ''text'') of
               None \<Rightarrow> JStr []
             | Some t \<Rightarrow> if truthy t then t else JStr [])
          else JStr [])"

definition extractTextFromMessage :: "jsonval \<Rightarrow> error + jsstring" where
  "extractTextFromMessage m =
     (if \<not> truthy m then Inr []
      else
        (case getField m (js ''content'') of
           Some (JStr s) \<Rightarrow> Inr s
         | Some (JArr parts) \<Rightarrow>
             (case collect (map toStr (filter truthy (map partText parts))) of
                Inl e \<Rightarrow> Inl e
              | Inr ss \<Rightarrow> Inr (js_join [10] ss))
         | _ \<Rightarrow> Inr []))"

definition messagesOf :: "jsonval \<Rightarrow> jsonval list" where
  "messagesOf body =
     (case getField body (js ''messages'') of Some (JArr ms) \<Rightarrow> ms | _ \<Rightarrow> [])"

definition toPrompt :: "jsonval \<Rightarrow> error + jsstring" where
  "toPrompt body =
     (case collect (map extractTextFromMessage (messagesOf body)) of
        Inl e \<Rightarrow> Inl e
      | Inr ts \<Rightarrow>
          Inr (trim (js_join [10, 10, 45, 45, 45, 10, 10] (filter (\<lambda>t. t \<noteq> []) ts))))"

definition wantStream :: "jsonval \<Rightarrow> bool" where
  "wantStream body =
     (case getField body (js ''stream'') of Some (JBool b) \<Rightarrow> b | _ \<Rightarrow> True)"

section \<open>The sanitizer\<close>

text \<open>
  The three patterns of isKiloRequest: \<^verbatim>\<open>/You are Kilo Code/i\<close>,
  \<^verbatim>\<open>/Current\s+Mode\s*<slug>.*?<\/slug>/is\<close> (with the flag s the dot matches every
  unit) and \<^verbatim>\<open>/Kilo\s*Code/i\<close>.
\<close>

definition youAreKilo_rx :: rx where
  "youAreKilo_rx = Lit (js ''You are Kilo Code'')"

definition currentMode_rx :: rx where
  "currentMode_rx =
     Seq (Lit (js ''Current'')) (Seq (Cls isSpace) (Seq (Star isSpace)
     (Seq (Lit (js ''Mode'')) (Seq (Star isSpace)
     (Seq (Lit (js ''<slug>'')) (Seq (Lazy (\<lambda>c. True)) (Lit (js ''</slug>''))))))))"

definition kiloCode_rx :: rx where
  "kiloCode_rx = Seq (Lit (js ''Kilo'')) (Seq (Star isSpace) (Lit (js ''Code'')))"

definition contentString :: "jsonval \<Rightarrow> jsstring" where
  "contentString m =
     (case getField m (js ''content'') of Some (JStr s) \<Rightarrow> s | _ \<Rightarrow> [])"

definition isKiloRequest :: "jsonval \<Rightarrow> bool" where
  "isKiloRequest payload =
     (let joined = js_join [10] (map contentString (messagesOf payload)) in
      if rx_test True youAreKilo_rx joined then True
      else if rx_test True currentMode_rx joined then True
      else if rx_test True kiloCode_rx joined then True
      else False)"

text \<open>
  The options as sanitizeKiloRequest works with them, that is the caller's merged over
  DEFAULTS.
\<close>

record options =
  mode :: jsstring
  keep :: "jsstring list"
  stripEnv :: bool
  stripStreamOptions :: bool
  stripUnknownTopFields :: bool
  stripModel :: bool
  blockModels :: "jsstring list"
  lang :: jsstring

text \<open>
  Three computations of the sanitizer enter as parameters, since no statement below
  depends on what they compute: the size in bytes of a value's JSON text
  (Buffer.byteLength of JSON.stringify), the rebuilt message list of the rewriting path
  (rebuildMessages, from the payload, the language, the kept tools and stripEnv; it
  throws on a last user message whose content is no string), and the test of the model
  name against the blocked patterns (shouldBlockModel, which compiles each pattern to a
  regular expression and may throw on one that is malformed).
\<close>

record sanitizer_env =
  byteLength :: "jsonval \<Rightarrow> nat"
  rebuildMessages :: "jsonval \<Rightarrow> jsstring \<Rightarrow> jsstring list \<Rightarrow> bool \<Rightarrow> error + jsonval"
  shouldBlockModel :: "jsonval option \<Rightarrow> jsstring list \<Rightarrow> error + bool"

record sanitized =
  json :: jsonval
  changed :: bool
  reason :: jsstring
  bytesBefore :: nat
  bytesAfter :: nat

text \<open>
  The own properties \<^verbatim>\<open>{...payload}\<close> copies. Only an object passes isKiloRequest, so
  no other value reaches the copy.
\<close>

definition spread :: "jsonval \<Rightarrow> (jsstring \<times> jsonval) list" where
  "spread payload = (case payload of JObj kvs \<Rightarrow> kvs | _ \<Rightarrow> [])"

definition hasKey :: "jsstring \<Rightarrow> (jsstring \<times> jsonval) list \<Rightarrow> bool" where
  "hasKey k kvs \<longleftrightarrow> k \<in> fst ` set kvs"

definition allowedTop :: "jsstring list" where
  "allowedTop =
     [js ''model'', js ''messages'', js ''temperature'', js ''top_p'', js ''stream'',
      js ''stream_options'', js ''max_tokens'', js ''stop'']"

definition pruneTopFields :: "(jsstring \<times> jsonval) list \<Rightarrow> (jsstring \<times> jsonval) list" where
  "pruneTopFields kvs = filter (\<lambda>kv. fst kv \<in> set allowedTop) kvs"

text \<open>The working state of the rewriting path: next, changed and reason.\<close>

type_synonym rewriting = "(jsstring \<times> jsonval) list \<times> bool \<times> jsstring"

definition rewriteMessages ::
  "sanitizer_env \<Rightarrow> jsonval \<Rightarrow> options \<Rightarrow> error + rewriting" where
  "rewriteMessages env payload opts =
     (if mode opts = js ''tools-minimal'' then
        (case rebuildMessages env payload (lang opts) (keep opts) (stripEnv opts) of
           Inl e \<Rightarrow> Inl e
         | Inr ms \<Rightarrow>
             Inr (AList.update (js ''messages'') ms (spread payload), True,
                  js ''tools-minimal''))
      else if mode opts = js ''tools-off'' then
        (case rebuildMessages env payload (lang opts) [] (stripEnv opts) of
           Inl e \<Rightarrow> Inl e
         | Inr ms \<Rightarrow>
             Inr (AList.update (js ''messages'') ms (spread payload), True,
                  js ''tools-off''))
      else Inr (spread payload, False, js ''passthrough''))"

definition dropStreamOptions :: "options \<Rightarrow> rewriting \<Rightarrow> rewriting" where
  "dropStreamOptions opts w =
     (case w of (next, ch, rs) \<Rightarrow>
        if stripStreamOptions opts \<and> hasKey (js ''stream_options'') next
        then (AList.delete (js ''stream_options'') next, True,
              rs @ js '' +strip-stream-options'')
        else (next, ch, rs))"

definition dropModel :: "sanitizer_env \<Rightarrow> options \<Rightarrow> rewriting \<Rightarrow> error + rewriting" where
  "dropModel env opts w =
     (case w of (next, ch, rs) \<Rightarrow>
        (case (if stripModel opts then Inr True
               else shouldBlockModel env (map_of next (js ''model'')) (blockModels opts)) of
           Inl e \<Rightarrow> Inl e
         | Inr hit \<Rightarrow>
             if hit \<and> hasKey (js ''model'') next
             then Inr (AList.delete (js ''model'') next, True, rs @ js '' +strip-model'')
             else Inr (next, ch, rs)))"

definition pruneTop :: "options \<Rightarrow> rewriting \<Rightarrow> rewriting" where
  "pruneTop opts w =
     (case w of (next, ch, rs) \<Rightarrow>
        if stripUnknownTopFields opts
        then (pruneTopFields next, True, rs @ js '' +prune-top-fields'')
        else (next, ch, rs))"

definition sanitizeKiloRequest ::
  "sanitizer_env \<Rightarrow> jsonval \<Rightarrow> options \<Rightarrow> error + sanitized" where
  "sanitizeKiloRequest env payload opts =
     (let before = byteLength env payload in
      if \<not> isKiloRequest payload then
        Inr \<lparr>json = payload, changed = False, reason = js ''passthrough'',
             bytesBefore = before, bytesAfter = before\<rparr>
      else
        (case rewriteMessages env payload opts of
           Inl e \<Rightarrow> Inl e
         | Inr w1 \<Rightarrow>
             (case dropModel env opts (dropStreamOptions opts w1) of
                Inl e \<Rightarrow> Inl e
              | Inr w3 \<Rightarrow>
                  (case pruneTop opts w3 of (next, ch, rs) \<Rightarrow>
                     Inr \<lparr>json = JObj next, changed = ch, reason = trim rs,
                          bytesBefore = before,
                          bytesAfter = byteLength env (JObj next)\<rparr>))))"

definition buildSanitizeOptionsFromCFG :: "config \<Rightarrow> options" where
  "buildSanitizeOptionsFromCFG cfg =
     \<lparr>mode = SAN_MODE cfg, keep = SAN_KEEP cfg, stripEnv = SAN_STRIP_ENV cfg,
      stripStreamOptions = SAN_STRIP_STREAM cfg,
      stripUnknownTopFields = SAN_PRUNE_TOP cfg, stripModel = SAN_STRIP_MODEL cfg,
      blockModels = SAN_BLOCK_MODELS cfg, lang = SAN_LANG cfg\<rparr>"

text \<open>The body the handler goes on with, and whether the sanitizer changed it.\<close>

definition maybeSanitizeKiloBody ::
  "config \<Rightarrow> sanitizer_env \<Rightarrow> jsonval \<Rightarrow> error + jsonval \<times> bool" where
  "maybeSanitizeKiloBody cfg env inBody =
     (if \<not> SAN_ON cfg then Inr (inBody, False)
      else
        (case sanitizeKiloRequest env inBody (buildSanitizeOptionsFromCFG cfg) of
           Inl e \<Rightarrow> Inl e
         | Inr r \<Rightarrow> Inr (json r, changed r)))"

section \<open>The handler of /v1/chat/completions\<close>

text \<open>
  A response: a JSON error object with its status and message, the event stream (one
  chunk event for each delta, then the stop chunk and the DONE frame), or the aggregate
  chat.completion payload with its content. The X-KiloSanitize headers are left out.
\<close>

datatype response =
    JsonError nat jsstring
  | EventStream "jsstring list"
  | ChatCompletion jsstring

text \<open>
  The catch of the handler: the message of what was thrown (an Error with an empty
  message renders as its name) picks the reason, and the answer is status 502. Every
  throw of the handler comes before any header is sent.
\<close>

definition messageOf :: "error \<Rightarrow> jsstring" where
  "messageOf e = (case e of Error m \<Rightarrow> if m = [] then js ''Error'' else m)"

definition catch_reason :: "error \<Rightarrow> jsstring" where
  "catch_reason e =
     (let msg = messageOf e in
      if js_includes msg (js ''submit_not_started'') then js ''submit_not_started''
      else if js_includes msg (js ''no_text_captured'') then js ''no_text_captured''
      else js ''proxy_error'')"

definition caught :: "error \<Rightarrow> response" where
  "caught e = JsonError 502 (catch_reason e)"

text \<open>
  What one turn observes: ensureBrowser (the message it rejects with, if it does), the
  submission, and the capture.
\<close>

record turn_obs =
  browser :: "jsstring option"
  submit :: submit_obs
  capture :: capture_obs

text \<open>
  The body of the handler's try with its catch. \<open>None\<close>: the capture is still running
  when the observed polls end.
\<close>

definition turn :: "config \<Rightarrow> sanitizer_env \<Rightarrow> turn_obs \<Rightarrow> jsonval \<Rightarrow> response option" where
  "turn cfg env ob body =
     (case maybeSanitizeKiloBody cfg env body of
        Inl e \<Rightarrow> Some (caught e)
      | Inr (sanitizedBody, ch) \<Rightarrow>
          let stream = wantStream sanitizedBody in
          (case toPrompt sanitizedBody of
             Inl e \<Rightarrow> Some (caught e)
           | Inr prompt \<Rightarrow>
               if prompt = [] then Some (JsonError 400 (js ''empty prompt''))
               else
                 (case browser ob of
                    Some m \<Rightarrow> Some (caught (Error m))
                  | None \<Rightarrow>
                      (case fst (submitPrompt cfg prompt (submit ob)) of
                         Inl e \<Rightarrow> Some (caught e)
                       | Inr baseline \<Rightarrow>
                           if stream then
                             (case readAnswerInChunks cfg baseline (capture ob) of
                                (deltas, fin) \<Rightarrow>
                                  if fin then Some (EventStream deltas) else None)
                           else
                             (case waitForFinalAnswer cfg baseline (capture ob) of
                                None \<Rightarrow> None
                              | Some (Inl e) \<Rightarrow> Some (caught e)
                              | Some (Inr full) \<Rightarrow> Some (ChatCompletion full))))))"

text \<open>
  The single-flight gate: the flag busy, the armed watchdog timers and the responses
  that still carry the once-listeners for finish and for close, each by the number of its
  request.
\<close>

record server =
  busy :: bool
  watchdogs :: "nat set"
  onFinish :: "nat set"
  onClose :: "nat set"

definition busy_message :: jsstring where
  "busy_message = js ''busy: single-flight in progress''"

definition chatCompletions ::
  "config \<Rightarrow> sanitizer_env \<Rightarrow> server \<Rightarrow> nat \<Rightarrow> turn_obs \<Rightarrow> jsonval
     \<Rightarrow> server \<times> response option" where
  "chatCompletions cfg env s rid ob body =
     (if busy s then (s, Some (JsonError 429 busy_message))
      else
        (s\<lparr>busy := True, watchdogs := insert rid (watchdogs s),
           onFinish := insert rid (onFinish s), onClose := insert rid (onClose s)\<rparr>,
         turn cfg env ob body))"

text \<open>The three ways the gate is released: the timer fires, the response finishes, it closes.\<close>

definition watchdog_fires :: "nat \<Rightarrow> server \<Rightarrow> server" where
  "watchdog_fires rid s =
     (if rid \<in> watchdogs s then s\<lparr>busy := False, watchdogs := watchdogs s - {rid}\<rparr> else s)"

definition response_finishes :: "nat \<Rightarrow> server \<Rightarrow> server" where
  "response_finishes rid s =
     (if rid \<in> onFinish s
      then s\<lparr>busy := False, watchdogs := watchdogs s - {rid}, onFinish := onFinish s - {rid}\<rparr>
      else s)"

definition response_closes :: "nat \<Rightarrow> server \<Rightarrow> server" where
  "response_closes rid s =
     (if rid \<in> onClose s
      then s\<lparr>busy := False, watchdogs := watchdogs s - {rid}, onClose := onClose s - {rid}\<rparr>
      else s)"

section \<open>Auxiliary notions for the statements\<close>

text \<open>
  The page with its first \<open>b\<close> bubbles removed, and a capture whose every read is so cut.
\<close>

definition beyond :: "nat \<Rightarrow> dom \<Rightarrow> dom" where
  "beyond b d = map_option (drop b) d"

definition obs_beyond :: "nat \<Rightarrow> capture_obs \<Rightarrow> capture_obs" where
  "obs_beyond b obs =
     obs\<lparr>polls := map (\<lambda>p. p\<lparr>page := beyond b (page p)\<rparr>) (polls obs),
         final_page := beyond b (final_page obs)\<rparr>"

text \<open>
  For the examples: a bubble without a text node that shows \<open>t\<close>, a pass of a loop
  during which the clock stands at \<open>t\<close>, such a pass that reads the one reply
  \<open>Hello world\<close>, with or without spinner, and the configuration the source falls
  back to when the environment sets nothing.
\<close>

definition plain :: "jsstring \<Rightarrow> bool \<Rightarrow> bubble" where
  "plain t sp = \<lparr>txtNode = None, innerText = t, textContent = t, spinner = sp\<rparr>"

definition tick :: "int \<Rightarrow> dom \<Rightarrow> poll" where
  "tick t d = \<lparr>at_loop = t, page = d, at_change = t, at_stable = t\<rparr>"

definition hello :: "bool \<Rightarrow> int \<Rightarrow> poll" where
  "hello sp t = tick t (Some [plain (js ''Hello world'') sp])"

definition defaultCFG :: config where
  "defaultCFG =
     \<lparr>MAX_ANSWER_MS = 60000, STABLE_MS = 1200, FORCE_ENTER_ONLY = False, SAN_ON = True,
      SAN_MODE = js ''tools-minimal'', SAN_KEEP = [], SAN_STRIP_ENV = True,
      SAN_STRIP_STREAM = True, SAN_STRIP_MODEL = True,
      SAN_BLOCK_MODELS = [js ''gemini-2.5-flash'', js ''gemini-webui''],
      SAN_PRUNE_TOP = False, SAN_LANG = js ''zh''\<rparr>"


text \<open>
  The filtered text a streaming poll works on, the generator's variables after a run of
  polls, and a capture that starts at clock reading 0.
\<close>

definition observed :: "nat \<Rightarrow> poll \<Rightarrow> jsstring" where
  "observed b p = cleanChunk (grabAnswerText b (page p))"

definition stream_state :: "config \<Rightarrow> nat \<Rightarrow> capture_obs \<Rightarrow> poll list \<Rightarrow> cstate" where
  "stream_state cfg b obs ps = snd (chunk_loop cfg b (at_t0 obs) (chunk_init obs) ps)"

definition capture_of :: "poll list \<Rightarrow> dom \<Rightarrow> capture_obs" where
  "capture_of ps d = \<lparr>at_init = 0, at_t0 = 0, polls = ps, final_page = d\<rparr>"


text \<open>
  For the aggregate form: the filtered text of a poll, whether a poll finds the capture
  time used up, and the loops as they run from the initial variables of a capture.
\<close>

definition observed_final :: "nat \<Rightarrow> poll \<Rightarrow> jsstring" where
  "observed_final b p = cleanFinal (btext (getBubbleState b (page p)))"

definition expired :: "config \<Rightarrow> capture_obs \<Rightarrow> poll \<Rightarrow> bool" where
  "expired cfg obs p \<longleftrightarrow> \<not> (at_loop p - at_t0 obs < MAX_ANSWER_MS cfg)"

definition stream_run :: "config \<Rightarrow> nat \<Rightarrow> capture_obs \<Rightarrow> poll list \<Rightarrow> phase \<times> cstate" where
  "stream_run cfg b obs ps = chunk_loop cfg b (at_t0 obs) (chunk_init obs) ps"

definition wait_run :: "config \<Rightarrow> nat \<Rightarrow> capture_obs \<Rightarrow> poll list \<Rightarrow> wctl" where
  "wait_run cfg b obs ps = wait_loop cfg b (at_t0 obs) (wait_init obs) ps"

text \<open>The flag everHadText is set exactly when lastText is not empty.\<close>

definition wf_wstate :: "wstate \<Rightarrow> bool" where
  "wf_wstate s \<longleftrightarrow> (everHadText s \<longleftrightarrow> lastText s \<noteq> [])"

text \<open>
  For the submission: none of the three questions of okAfter is answered with yes, and
  this after every injection and with the send button not ready at D either.
\<close>

definition unverified :: "after_obs \<Rightarrow> bool" where
  "unverified a \<longleftrightarrow> \<not> inputMatches a \<and> \<not> sendReady a \<and> \<not> hasText a"

definition injection_unverified :: "inject_obs \<Rightarrow> bool" where
  "injection_unverified i \<longleftrightarrow>
     unverified (afterA i) \<and> unverified (afterB i) \<and> unverified (afterC i)
     \<and> unverified (afterC2 i) \<and> \<not> readyD i"

text \<open>Observations and values for the examples.\<close>

definition after_no :: after_obs where
  "after_no = \<lparr>settled = True, inputMatches = False, sendReady = False, hasText = False\<rparr>"

definition after_yes :: after_obs where
  "after_yes = \<lparr>settled = True, inputMatches = True, sendReady = True, hasText = True\<rparr>"

definition inject_with :: "after_obs \<Rightarrow> inject_obs" where
  "inject_with a =
     \<lparr>clearA = None, execA = Some True, afterA = a, clearB = None, clipB = True,
      afterB = a, clearC = None, insertC = True, afterC = a, typeC = True, afterC2 = a,
      readyD = False\<rparr>"

definition submit_with :: "after_obs \<Rightarrow> nat \<Rightarrow> submit_obs" where
  "submit_with a n =
     \<lparr>idle = None, activeInput = True, beforeCount = n, inject = inject_with a,
      settle = None, focus1 = None, started = True, focus2 = None, started2 = False\<rparr>"

text \<open>
  An environment for requests that are no Kilo Code requests: they never reach the
  rewriting path, so its two parameters are not called, and sizes are left at 0 where
  no example looks at them.
\<close>

definition no_rewriting :: sanitizer_env where
  "no_rewriting =
     \<lparr>byteLength = (\<lambda>v. 0), rebuildMessages = (\<lambda>p l k e. Inr (JArr [])),
      shouldBlockModel = (\<lambda>m l. Inr False)\<rparr>"

definition user_says :: "jsstring \<Rightarrow> jsonval" where
  "user_says t = JObj [(js ''role'', JStr (js ''user'')), (js ''content'', JStr t)]"

definition idle_server :: server where
  "idle_server = \<lparr>busy = False, watchdogs = {}, onFinish = {}, onClose = {}\<rparr>"

text \<open>
  A turn in which the submission is verified at once at baseline 0 and the page shows
  the short reply \<open>OK\<close>, and a body that asks for the aggregate answer to \<open>hi\<close>.
\<close>

definition reply_ok :: turn_obs where
  "reply_ok =
     \<lparr>browser = None, submit = submit_with after_yes 0,
      capture = capture_of [tick 0 (Some [plain (js ''OK'') False])] None\<rparr>"

definition aggregate_hi :: jsonval where
  "aggregate_hi =
     JObj [(js ''messages'', JArr [user_says (js ''hi'')]), (js ''stream'', JBool False)]"

text \<open>
  A pass that reads the one reply \<open>t\<close>, with or without spinner, while the clock stands
  at \<open>c\<close>.
\<close>

definition reply :: "jsstring \<Rightarrow> bool \<Rightarrow> int \<Rightarrow> poll" where
  "reply t sp c = tick c (Some [plain t sp])"


section \<open>Evaluation on concrete inputs\<close>

text \<open>The defining equations the simplifier unfolds to run the model on a concrete input.\<close>

lemmas eval_string =
  js_def trim_def isSpace_def isLineTerminator_def isWordChar_def canonicalize_def
  atWordBoundary_def rx_exec_def rx_test_def

lemmas eval_filter =
  cleanChunk_def typing_rx_def cleanFinal_def final_rx_def isPlaceholderText_def
  ellipsis_rx_def dotOrSpace_def placeholders_def

lemmas eval_surface =
  getBubbleState_def grabAnswerText_def bubbleText_def orElse_def noBubble_def plain_def

lemmas eval_capture =
  chunk_step_def chunk_init_def final_read_def readAnswerInChunks_def
  wait_step_def wait_init_def waitForFinalAnswer_def no_text_captured_def
  tick_def capture_of_def defaultCFG_def stream_state_def observed_def Let_def
  observed_final_def expired_def stream_run_def wait_run_def

section \<open>The baseline invariant\<close>

lemma getBubbleState_beyond: "getBubbleState b d = getBubbleState 0 (beyond b d)"
proof (cases d)
  case None
  then show ?thesis by (simp add: getBubbleState_def beyond_def)
next
  case (Some list)
  show ?thesis
  proof (cases "length list \<le> b")
    case True
    with Some show ?thesis by (simp add: getBubbleState_def beyond_def)
  next
    case False
    then have "drop b list ! (length list - b - 1) = list ! (length list - 1)"
      by simp
    with Some False show ?thesis
      by (simp add: getBubbleState_def beyond_def Let_def)
  qed
qed

lemma grabAnswerText_beyond: "grabAnswerText b d = grabAnswerText 0 (beyond b d)"
  using getBubbleState_beyond [of b d] by (simp add: grabAnswerText_def)

lemma chunk_step_beyond:
  "chunk_step cfg b t0 s p = chunk_step cfg 0 t0 s (p\<lparr>page := beyond b (page p)\<rparr>)"
proof -
  define p' where "p' = p\<lparr>page := beyond b (page p)\<rparr>"
  have f: "at_loop p' = at_loop p" "at_change p' = at_change p" "at_stable p' = at_stable p"
    "grabAnswerText 0 (page p') = grabAnswerText b (page p)"
    by (simp_all add: p'_def grabAnswerText_beyond [of b "page p"])
  have "chunk_step cfg 0 t0 s p' = chunk_step cfg b t0 s p"
    unfolding chunk_step_def f ..
  then show ?thesis by (simp add: p'_def)
qed

lemma chunk_loop_beyond:
  "chunk_loop cfg b t0 s ps
     = chunk_loop cfg 0 t0 s (map (\<lambda>p. p\<lparr>page := beyond b (page p)\<rparr>) ps)"
proof (induction ps arbitrary: s)
  case Nil
  show ?case by simp
next
  case (Cons p ps)
  show ?case
    by (simp add: chunk_step_beyond [of cfg b t0 s p, symmetric] Cons.IH
        split: prod.splits phase.splits)
qed

lemma final_read_beyond: "final_read b d s = final_read 0 (beyond b d) s"
  using grabAnswerText_beyond [of b d] by (simp add: final_read_def)

lemma wait_step_beyond:
  "wait_step cfg b t0 s p = wait_step cfg 0 t0 s (p\<lparr>page := beyond b (page p)\<rparr>)"
proof -
  define p' where "p' = p\<lparr>page := beyond b (page p)\<rparr>"
  have f: "at_loop p' = at_loop p" "at_change p' = at_change p" "at_stable p' = at_stable p"
    "getBubbleState 0 (page p') = getBubbleState b (page p)"
    by (simp_all add: p'_def getBubbleState_beyond [of b "page p"])
  have "wait_step cfg 0 t0 s p' = wait_step cfg b t0 s p"
    unfolding wait_step_def f ..
  then show ?thesis by (simp add: p'_def)
qed

lemma wait_loop_beyond:
  "wait_loop cfg b t0 s ps
     = wait_loop cfg 0 t0 s (map (\<lambda>p. p\<lparr>page := beyond b (page p)\<rparr>) ps)"
proof (induction ps arbitrary: s)
  case Nil
  show ?case by simp
next
  case (Cons p ps)
  show ?case
    by (simp add: wait_step_beyond [of cfg b t0 s p, symmetric] Cons.IH
        split: wctl.splits)
qed

text \<open>
  Claim C1. A capture with baseline \<open>b\<close> reads, at every poll, only the last bubble of
  a page that shows more than \<open>b\<close> bubbles, that is the most recent reply segment whose
  position, counted from one as the baseline counts them, lies strictly beyond \<open>b\<close>. A
  page with at most \<open>b\<close> bubbles yields the empty string. Hence nothing that a capture
  yields or returns depends on the first \<open>b\<close> bubbles of any page it reads: removing
  them from every read and capturing with baseline 0 gives the same result, in the
  streaming and in the aggregate form.
\<close>

theorem baseline_invariant:
  "(\<forall>list. length list \<le> b \<longrightarrow> grabAnswerText b (Some list) = [])
   \<and> (\<forall>list. b < length list \<longrightarrow>
         getBubbleState b (Some list)
           = \<lparr>hasBubble = True, btext = bubbleText (last (drop b list)),
              spinning = spinner (last (drop b list))\<rparr>)
   \<and> grabAnswerText b d = grabAnswerText 0 (beyond b d)
   \<and> readAnswerInChunks cfg b obs = readAnswerInChunks cfg 0 (obs_beyond b obs)
   \<and> waitForFinalAnswer cfg b obs = waitForFinalAnswer cfg 0 (obs_beyond b obs)"
proof -
  have a: "\<forall>list. length list \<le> b \<longrightarrow> grabAnswerText b (Some list) = []"
    by (simp add: grabAnswerText_def getBubbleState_def noBubble_def)
  have b: "\<forall>list. b < length list \<longrightarrow>
         getBubbleState b (Some list)
           = \<lparr>hasBubble = True, btext = bubbleText (last (drop b list)),
              spinning = spinner (last (drop b list))\<rparr>"
    by (simp add: getBubbleState_def Let_def last_conv_nth)
  have c: "readAnswerInChunks cfg b obs = readAnswerInChunks cfg 0 (obs_beyond b obs)"
    using chunk_loop_beyond [of cfg b "at_t0 obs" "chunk_init obs" "polls obs"]
      final_read_beyond [of b "final_page obs"]
    by (simp add: readAnswerInChunks_def obs_beyond_def chunk_init_def
        split: prod.splits phase.splits)
  have d: "waitForFinalAnswer cfg b obs = waitForFinalAnswer cfg 0 (obs_beyond b obs)"
    using wait_loop_beyond [of cfg b "at_t0 obs" "wait_init obs" "polls obs"]
    by (simp add: waitForFinalAnswer_def obs_beyond_def wait_init_def)
  from a b c d grabAnswerText_beyond show ?thesis by blast
qed


text \<open>
  The invariant at a page with one stale bubble and at baseline 1: the stale bubble alone
  yields nothing, a second bubble is the one read, and the aggregate capture returns the
  same reply with and without the stale bubble.
\<close>

theorem baseline_invariant_witness:
  "grabAnswerText 1 (Some [plain (js ''old'') False]) = []
   \<and> getBubbleState 1 (Some [plain (js ''old'') False, plain (js ''new'') True])
       = \<lparr>hasBubble = True, btext = js ''new'', spinning = True\<rparr>
   \<and> waitForFinalAnswer defaultCFG 1
        (capture_of [tick 0 (Some [plain (js ''old'') False, plain (js ''OK'') False])] None)
       = Some (Inr (js ''OK''))
   \<and> waitForFinalAnswer defaultCFG 0
        (obs_beyond 1
          (capture_of [tick 0 (Some [plain (js ''old'') False, plain (js ''OK'') False])] None))
       = Some (Inr (js ''OK''))"
proof -
  let ?obs = "capture_of [tick 0 (Some [plain (js ''old'') False, plain (js ''OK'') False])] None"
  note t = baseline_invariant [of 1 "None" defaultCFG ?obs]
  have a: "grabAnswerText 1 (Some [plain (js ''old'') False]) = []"
    using t by simp
  have b: "getBubbleState 1 (Some [plain (js ''old'') False, plain (js ''new'') True])
       = \<lparr>hasBubble = True, btext = js ''new'', spinning = True\<rparr>"
    using t by (simp add: eval_string eval_surface)
  have c: "waitForFinalAnswer defaultCFG 1 ?obs = Some (Inr (js ''OK''))"
    by (simp add: eval_string eval_filter eval_surface eval_capture)
  have d: "waitForFinalAnswer defaultCFG 0 (obs_beyond 1 ?obs) = Some (Inr (js ''OK''))"
    using t c by simp
  from a b c d show ?thesis by simp
qed

section \<open>Deltas by length\<close>

text \<open>
  A pass of the streaming loop leaves the generator's variables as they are, or replaces
  the emitted text by a strictly longer observed text and yields its units beyond the old
  length.
\<close>


lemma chunk_step_state:
  assumes "chunk_step cfg b t0 s p = (ph, s')"
  shows "s' = s
    \<or> (length (last_s s) < length (observed b p)
       \<and> s' = s\<lparr>last_s := observed b p, lastChangeAt_s := at_change p,
                 yielded := yielded s @ [drop (length (last_s s)) (observed b p)]\<rparr>)"
  using assms
  by (auto simp: chunk_step_def observed_def Let_def split: if_splits)

lemma chunk_loop_snoc:
  "chunk_loop cfg b t0 s (ps @ [p]) =
     (case chunk_loop cfg b t0 s ps of
        (Polling, s') \<Rightarrow> chunk_step cfg b t0 s' p
      | (Stable, s') \<Rightarrow> (Stable, s')
      | (TimedOut, s') \<Rightarrow> (TimedOut, s'))"
proof (induction ps arbitrary: s)
  case Nil
  show ?case by (simp split: prod.splits phase.splits)
next
  case (Cons q ps)
  show ?case by (simp add: Cons.IH split: prod.splits phase.splits)
qed

lemma chunk_loop_invariant:
  assumes "P s"
    and "\<And>s p ph s'. P s \<Longrightarrow> chunk_step cfg b t0 s p = (ph, s') \<Longrightarrow> P s'"
  shows "P (snd (chunk_loop cfg b t0 s ps))"
  using assms(1)
proof (induction ps arbitrary: s)
  case Nil
  then show ?case by simp
next
  case (Cons p ps)
  obtain ph s' where e: "chunk_step cfg b t0 s p = (ph, s')"
    by (cases "chunk_step cfg b t0 s p")
  from assms(2) [OF Cons.prems e] have "P s'" .
  with Cons.IH [of s'] e Cons.prems show ?case
    by (cases ph) simp_all
qed

lemma yielded_length:
  "length (concat (yielded (stream_state cfg b obs ps)))
     = length (last_s (stream_state cfg b obs ps))"
  unfolding stream_state_def
proof (rule chunk_loop_invariant)
  show "length (concat (yielded (chunk_init obs))) = length (last_s (chunk_init obs))"
    by (simp add: chunk_init_def)
next
  fix s p ph s'
  assume i: "length (concat (yielded s)) = length (last_s s)"
    and e: "chunk_step cfg b (at_t0 obs) s p = (ph, s')"
  from chunk_step_state [OF e] i
  show "length (concat (yielded s')) = length (last_s s')"
    by auto
qed

lemma yielded_grows:
  "prefix (yielded (stream_state cfg b obs ps)) (yielded (stream_state cfg b obs (ps @ [p])))"
proof -
  obtain ph s where l: "chunk_loop cfg b (at_t0 obs) (chunk_init obs) ps = (ph, s)"
    by (cases "chunk_loop cfg b (at_t0 obs) (chunk_init obs) ps")
  obtain ph' s' where e: "chunk_step cfg b (at_t0 obs) s p = (ph', s')"
    by (cases "chunk_step cfg b (at_t0 obs) s p")
  from chunk_step_state [OF e] have "prefix (yielded s) (yielded s')"
    by auto
  with l e show ?thesis
    by (cases ph) (simp_all add: stream_state_def chunk_loop_snoc)
qed

lemma final_read_grows: "prefix (yielded s) (final_read b d s)"
  by (simp add: final_read_def Let_def)

lemma readAnswerInChunks_grows:
  "prefix (yielded (stream_state cfg b obs (polls obs))) (fst (readAnswerInChunks cfg b obs))"
  by (simp add: readAnswerInChunks_def stream_state_def final_read_grows
      split: prod.splits phase.splits)

text \<open>
  What a pass does to the generator's variables, exactly: it emits when it is in time and
  its filtered text is no placeholder and longer than the emitted text, and changes
  nothing otherwise.
\<close>

lemma cleanChunk_Nil: "cleanChunk [] = []"
  by (simp add: cleanChunk_def trim_def)

lemma isPlaceholderText_Nil: "isPlaceholderText []"
  by (simp add: isPlaceholderText_def)

lemma chunk_step_exact:
  "snd (chunk_step cfg b t0 s p) =
     (if at_loop p - t0 < MAX_ANSWER_MS cfg \<and> \<not> isPlaceholderText (observed b p)
         \<and> length (last_s s) < length (observed b p)
      then s\<lparr>last_s := observed b p, lastChangeAt_s := at_change p,
             yielded := yielded s @ [drop (length (last_s s)) (observed b p)]\<rparr>
      else s)"
proof (cases "grabAnswerText b (page p) = []")
  case True
  then have "observed b p = []"
    by (simp add: observed_def cleanChunk_Nil)
  with True show ?thesis
    by (simp add: chunk_step_def isPlaceholderText_Nil)
next
  case False
  have "isPlaceholderText (observed b p) \<or> observed b p \<noteq> []"
    using isPlaceholderText_Nil by (cases "observed b p = []") simp_all
  with False show ?thesis
    by (auto simp: chunk_step_def observed_def Let_def)
qed

lemma stream_state_snoc:
  "stream_state cfg b obs (ps @ [p]) =
     (if fst (stream_run cfg b obs ps) = Polling
      then snd (chunk_step cfg b (at_t0 obs) (stream_state cfg b obs ps) p)
      else stream_state cfg b obs ps)"
proof -
  obtain ph s where l: "chunk_loop cfg b (at_t0 obs) (chunk_init obs) ps = (ph, s)"
    by (cases "chunk_loop cfg b (at_t0 obs) (chunk_init obs) ps")
  then show ?thesis
    by (cases ph) (simp_all add: stream_state_def stream_run_def chunk_loop_snoc split: prod.splits)
qed

lemma poll_emits:
  assumes "fst (stream_run cfg b obs ps) = Polling" "\<not> expired cfg obs p"
    "\<not> isPlaceholderText (observed b p)"
    "length (last_s (stream_state cfg b obs ps)) < length (observed b p)"
  shows "stream_state cfg b obs (ps @ [p]) =
     (stream_state cfg b obs ps)\<lparr>last_s := observed b p, lastChangeAt_s := at_change p,
        yielded := yielded (stream_state cfg b obs ps)
          @ [drop (length (last_s (stream_state cfg b obs ps))) (observed b p)]\<rparr>"
  using assms by (simp add: stream_state_snoc chunk_step_exact expired_def)

lemma poll_silent:
  assumes "\<not> (fst (stream_run cfg b obs ps) = Polling \<and> \<not> expired cfg obs p
    \<and> \<not> isPlaceholderText (observed b p)
    \<and> length (last_s (stream_state cfg b obs ps)) < length (observed b p))"
  shows "stream_state cfg b obs (ps @ [p]) = stream_state cfg b obs ps"
  using assms by (auto simp: stream_state_snoc chunk_step_exact expired_def)

lemma step_concat:
  assumes c: "concat (yielded (stream_state cfg b obs ps)) = last_s (stream_state cfg b obs ps)"
  shows "concat (yielded (stream_state cfg b obs (ps @ [p])))
           = last_s (stream_state cfg b obs (ps @ [p]))
     \<longleftrightarrow> (yielded (stream_state cfg b obs (ps @ [p])) \<noteq> yielded (stream_state cfg b obs ps)
          \<longrightarrow> prefix (last_s (stream_state cfg b obs ps)) (observed b p))"
proof (cases "fst (stream_run cfg b obs ps) = Polling \<and> \<not> expired cfg obs p
    \<and> \<not> isPlaceholderText (observed b p)
    \<and> length (last_s (stream_state cfg b obs ps)) < length (observed b p)")
  case False
  from poll_silent [OF False] c show ?thesis by simp
next
  case True
  define S where "S = stream_state cfg b obs ps"
  define n where "n = length (last_s S)"
  define u where "u = observed b p"
  from True have e: "stream_state cfg b obs (ps @ [p]) =
     S\<lparr>last_s := u, lastChangeAt_s := at_change p, yielded := yielded S @ [drop n u]\<rparr>"
    unfolding S_def n_def u_def by (simp add: poll_emits)
  from True have lt: "n < length u"
    by (simp add: n_def S_def u_def)
  from c have c': "concat (yielded S) = last_s S"
    by (simp add: S_def)
  have "last_s S @ drop n u = u \<longleftrightarrow> prefix (last_s S) u"
  proof
    assume "last_s S @ drop n u = u"
    then show "prefix (last_s S) u"
      by (metis prefixI)
  next
    assume "prefix (last_s S) u"
    then obtain d where "u = last_s S @ d"
      by (auto simp: prefix_def)
    then show "last_s S @ drop n u = u"
      by (simp add: n_def)
  qed
  with e c' show ?thesis
    unfolding S_def [symmetric] u_def [symmetric] by simp
qed

lemma run_concat:
  "(\<forall>k\<le>length ps. concat (yielded (stream_state cfg b obs (take k ps)))
                     = last_s (stream_state cfg b obs (take k ps)))
   \<longleftrightarrow> (\<forall>k<length ps.
          yielded (stream_state cfg b obs (take (Suc k) ps))
            \<noteq> yielded (stream_state cfg b obs (take k ps))
          \<longrightarrow> prefix (last_s (stream_state cfg b obs (take k ps))) (observed b (ps ! k)))"
proof (induction ps rule: rev_induct)
  case Nil
  show ?case
    by (simp add: stream_state_def chunk_init_def)
next
  case (snoc p ps)
  let ?C = "\<lambda>qs. concat (yielded (stream_state cfg b obs qs)) = last_s (stream_state cfg b obs qs)"
  let ?E = "\<lambda>qs q. yielded (stream_state cfg b obs (qs @ [q])) \<noteq> yielded (stream_state cfg b obs qs)
          \<longrightarrow> prefix (last_s (stream_state cfg b obs qs)) (observed b q)"
  have l: "(\<forall>k\<le>length (ps @ [p]). ?C (take k (ps @ [p])))
      \<longleftrightarrow> (\<forall>k\<le>length ps. ?C (take k ps)) \<and> ?C (ps @ [p])"
    by (auto simp: le_Suc_eq)
  have r: "(\<forall>k<length (ps @ [p]).
          yielded (stream_state cfg b obs (take (Suc k) (ps @ [p])))
            \<noteq> yielded (stream_state cfg b obs (take k (ps @ [p])))
          \<longrightarrow> prefix (last_s (stream_state cfg b obs (take k (ps @ [p]))))
                (observed b ((ps @ [p]) ! k)))
      \<longleftrightarrow> (\<forall>k<length ps.
          yielded (stream_state cfg b obs (take (Suc k) ps))
            \<noteq> yielded (stream_state cfg b obs (take k ps))
          \<longrightarrow> prefix (last_s (stream_state cfg b obs (take k ps))) (observed b (ps ! k)))
        \<and> ?E ps p"
    by (auto simp: less_Suc_eq nth_append Suc_le_eq)
  have "(\<forall>k\<le>length ps. ?C (take k ps)) \<Longrightarrow> ?C ps"
    by auto
  with step_concat [of cfg b obs ps p]
  have "(\<forall>k\<le>length ps. ?C (take k ps)) \<Longrightarrow> (?C (ps @ [p]) \<longleftrightarrow> ?E ps p)"
    by blast
  with l r snoc.IH show ?case
    by blast
qed

lemma final_read_exact:
  "final_read b d s =
     (if length (last_s s) < length (cleanChunk (grabAnswerText b d))
      then yielded s @ [drop (length (last_s s)) (cleanChunk (grabAnswerText b d))]
      else yielded s)"
  by (auto simp: final_read_def Let_def)

lemma readAnswerInChunks_exact:
  "readAnswerInChunks cfg b obs =
     (if fst (stream_run cfg b obs (polls obs)) = Polling
      then (yielded (stream_state cfg b obs (polls obs)), False)
      else (final_read b (final_page obs) (stream_state cfg b obs (polls obs)), True))"
  by (simp add: readAnswerInChunks_def stream_run_def stream_state_def
      split: prod.splits phase.splits)

lemma stream_output:
  "fst (readAnswerInChunks cfg b obs) =
     (if snd (readAnswerInChunks cfg b obs)
         \<and> length (last_s (stream_state cfg b obs (polls obs)))
             < length (cleanChunk (grabAnswerText b (final_page obs)))
      then yielded (stream_state cfg b obs (polls obs))
             @ [drop (length (last_s (stream_state cfg b obs (polls obs))))
                  (cleanChunk (grabAnswerText b (final_page obs)))]
      else yielded (stream_state cfg b obs (polls obs)))"
  by (simp add: readAnswerInChunks_exact final_read_exact)

text \<open>
  Claim C3, as the code has it. The loop compares lengths, not prefixes. A poll emits
  exactly when the loop is still running, the poll is in time, and its filtered text is
  no placeholder and longer than the emitted text: it then yields the units of its text
  beyond the emitted length and makes that text the emitted text, whether or not the
  text extends the emitted one. Every other poll changes nothing and yields nothing.
  After any run of polls the deltas yielded so far have, together, the length of the
  emitted text; the sequence of yielded deltas only grows, by a further poll and by the
  read that follows the loop, so nothing yielded is retracted. The deltas concatenate to
  the emitted text after every poll of a run exactly when each poll of the run that
  emits observes a text that extends the text emitted before it. And the read that
  follows the loop cuts by length too: once the loop has ended, the stream is what the
  loop has yielded, followed by the units beyond the emitted length of the filtered text
  read last when that text is longer than the emitted text.
\<close>

theorem length_based_append:
  "(fst (stream_run cfg b obs ps) = Polling \<and> \<not> expired cfg obs p
      \<and> \<not> isPlaceholderText (observed b p)
      \<and> length (last_s (stream_state cfg b obs ps)) < length (observed b p)
     \<longrightarrow> stream_state cfg b obs (ps @ [p]) =
          (stream_state cfg b obs ps)\<lparr>last_s := observed b p, lastChangeAt_s := at_change p,
             yielded := yielded (stream_state cfg b obs ps)
               @ [drop (length (last_s (stream_state cfg b obs ps))) (observed b p)]\<rparr>)
   \<and> (\<not> (fst (stream_run cfg b obs ps) = Polling \<and> \<not> expired cfg obs p
          \<and> \<not> isPlaceholderText (observed b p)
          \<and> length (last_s (stream_state cfg b obs ps)) < length (observed b p))
     \<longrightarrow> stream_state cfg b obs (ps @ [p]) = stream_state cfg b obs ps)
   \<and> length (concat (yielded (stream_state cfg b obs ps)))
       = length (last_s (stream_state cfg b obs ps))
   \<and> prefix (yielded (stream_state cfg b obs ps))
            (yielded (stream_state cfg b obs (ps @ [p])))
   \<and> prefix (yielded (stream_state cfg b obs (polls obs)))
            (fst (readAnswerInChunks cfg b obs))
   \<and> ((\<forall>k\<le>length ps. concat (yielded (stream_state cfg b obs (take k ps)))
                         = last_s (stream_state cfg b obs (take k ps)))
      \<longleftrightarrow> (\<forall>k<length ps.
             yielded (stream_state cfg b obs (take (Suc k) ps))
               \<noteq> yielded (stream_state cfg b obs (take k ps))
             \<longrightarrow> prefix (last_s (stream_state cfg b obs (take k ps))) (observed b (ps ! k))))
   \<and> fst (readAnswerInChunks cfg b obs) =
       (if snd (readAnswerInChunks cfg b obs)
           \<and> length (last_s (stream_state cfg b obs (polls obs)))
               < length (cleanChunk (grabAnswerText b (final_page obs)))
        then yielded (stream_state cfg b obs (polls obs))
               @ [drop (length (last_s (stream_state cfg b obs (polls obs))))
                    (cleanChunk (grabAnswerText b (final_page obs)))]
        else yielded (stream_state cfg b obs (polls obs)))"
  using poll_emits [of cfg b obs ps p] poll_silent [of cfg b obs ps p]
    yielded_length [of cfg b obs ps] yielded_grows [of cfg b obs ps p]
    readAnswerInChunks_grows [of cfg b obs] run_concat [of ps cfg b obs]
    stream_output [of cfg b obs]
  by blast

text \<open>
  A run at baseline 0 whose observed texts are no chain of extensions: three dots,
  \<open>Hel\<close>, the shorter \<open>He\<close>, then \<open>Hello\<close>. The dots are a placeholder and the
  shrunken text is not longer than the emitted one, so neither poll emits; the stream
  yields \<open>Hel\<close> and \<open>lo\<close>, which concatenate to the emitted text. A further poll
  that reads \<open>Hello world\<close> yields the six units beyond \<open>Hello\<close>, and one that
  reads \<open>Help\<close>, which is not longer than \<open>Hello\<close>, yields nothing. When the run
  is followed by a poll that finds the time used up and the page then shows \<open>Hello!\<close>,
  the read after the loop yields the one unit beyond \<open>Hello\<close>.
\<close>

theorem length_based_append_witness:
  "map (observed 0)
      [reply (js ''...'') False 0, reply (js ''Hel'') False 100,
       reply (js ''He'') False 200, reply (js ''Hello'') False 300]
     = [js ''...'', js ''Hel'', js ''He'', js ''Hello'']
   \<and> stream_state defaultCFG 0 (capture_of [] (Some [plain (js ''Hello!'') False]))
        [reply (js ''...'') False 0, reply (js ''Hel'') False 100,
         reply (js ''He'') False 200, reply (js ''Hello'') False 300]
       = \<lparr>last_s = js ''Hello'', lastChangeAt_s = 300, yielded = [js ''Hel'', js ''lo'']\<rparr>
   \<and> concat (yielded (stream_state defaultCFG 0
        (capture_of [] (Some [plain (js ''Hello!'') False]))
        [reply (js ''...'') False 0, reply (js ''Hel'') False 100,
         reply (js ''He'') False 200, reply (js ''Hello'') False 300]))
       = last_s (stream_state defaultCFG 0 (capture_of [] (Some [plain (js ''Hello!'') False]))
        [reply (js ''...'') False 0, reply (js ''Hel'') False 100,
         reply (js ''He'') False 200, reply (js ''Hello'') False 300])
   \<and> stream_state defaultCFG 0 (capture_of [] (Some [plain (js ''Hello!'') False]))
        ([reply (js ''...'') False 0, reply (js ''Hel'') False 100,
          reply (js ''He'') False 200, reply (js ''Hello'') False 300]
         @ [reply (js ''Hello world'') False 400])
       = \<lparr>last_s = js ''Hello world'', lastChangeAt_s = 400,
          yielded = [js ''Hel'', js ''lo'', js '' world'']\<rparr>
   \<and> stream_state defaultCFG 0 (capture_of [] (Some [plain (js ''Hello!'') False]))
        ([reply (js ''...'') False 0, reply (js ''Hel'') False 100,
          reply (js ''He'') False 200, reply (js ''Hello'') False 300]
         @ [reply (js ''Help'') False 400])
       = \<lparr>last_s = js ''Hello'', lastChangeAt_s = 300, yielded = [js ''Hel'', js ''lo'']\<rparr>
   \<and> readAnswerInChunks defaultCFG 0
        (capture_of
           [reply (js ''...'') False 0, reply (js ''Hel'') False 100,
            reply (js ''He'') False 200, reply (js ''Hello'') False 300,
            reply (js ''Hello'') False 60000]
           (Some [plain (js ''Hello!'') False]))
       = ([js ''Hel'', js ''lo'', js ''!''], True)"
proof -
  let ?p1 = "reply (js ''...'') False 0"
  let ?p2 = "reply (js ''Hel'') False 100"
  let ?p3 = "reply (js ''He'') False 200"
  let ?p4 = "reply (js ''Hello'') False 300"
  let ?ps = "[?p1, ?p2, ?p3, ?p4]"
  let ?q = "reply (js ''Hello world'') False 400"
  let ?r = "reply (js ''Help'') False 400"
  let ?x = "reply (js ''Hello'') False 60000"
  let ?d = "Some [plain (js ''Hello!'') False]"
  let ?C = "capture_of [] ?d"
  let ?F = "capture_of (?ps @ [?x]) ?d"
  let ?S = "\<lambda>qs. stream_state defaultCFG 0 ?C qs"
  note tq = length_based_append [of defaultCFG 0 ?C ?ps ?q]
  note tr = length_based_append [of defaultCFG 0 ?C ?ps ?r]
  note tf = length_based_append [of defaultCFG 0 ?F ?ps ?x]
  have o: "map (observed 0) ?ps = [js ''...'', js ''Hel'', js ''He'', js ''Hello'']"
    by (simp add: eval_string eval_filter eval_surface eval_capture reply_def)
  have s0: "?S [] = \<lparr>last_s = [], lastChangeAt_s = 0, yielded = []\<rparr>"
    by (simp add: eval_capture)
  have s1: "?S [?p1] = \<lparr>last_s = [], lastChangeAt_s = 0, yielded = []\<rparr>"
    by (simp add: eval_string eval_filter eval_surface eval_capture reply_def)
  have s2: "?S [?p1, ?p2] = \<lparr>last_s = js ''Hel'', lastChangeAt_s = 100, yielded = [js ''Hel'']\<rparr>"
    by (simp add: eval_string eval_filter eval_surface eval_capture reply_def)
  have s3: "?S [?p1, ?p2, ?p3]
      = \<lparr>last_s = js ''Hel'', lastChangeAt_s = 100, yielded = [js ''Hel'']\<rparr>"
    by (simp add: eval_string eval_filter eval_surface eval_capture reply_def)
  have s4: "?S ?ps
      = \<lparr>last_s = js ''Hello'', lastChangeAt_s = 300, yielded = [js ''Hel'', js ''lo'']\<rparr>"
    by (simp add: eval_string eval_filter eval_surface eval_capture reply_def)
  have ph: "fst (stream_run defaultCFG 0 ?C ?ps) = Polling"
    by (simp add: eval_string eval_filter eval_surface eval_capture reply_def)
  have "\<forall>k<length ?ps. yielded (?S (take (Suc k) ?ps)) \<noteq> yielded (?S (take k ?ps))
      \<longrightarrow> prefix (last_s (?S (take k ?ps))) (observed 0 (?ps ! k))"
  proof (intro allI impI)
    fix k
    assume "k < length ?ps"
      and e: "yielded (?S (take (Suc k) ?ps)) \<noteq> yielded (?S (take k ?ps))"
    then consider "k = 0" | "k = Suc 0" | "k = Suc (Suc 0)" | "k = Suc (Suc (Suc 0))"
      by (auto simp: less_Suc_eq)
    then show "prefix (last_s (?S (take k ?ps))) (observed 0 (?ps ! k))"
    proof cases
      case 1
      then show ?thesis by (simp add: s0)
    next
      case 2
      with o show ?thesis by (simp add: s1)
    next
      case 3
      with e show ?thesis by (simp add: s2 s3)
    next
      case 4
      from o have o4: "observed 0 ?p4 = js ''Hello''"
        by simp
      have "prefix (last_s (?S [?p1, ?p2, ?p3])) (observed 0 ?p4)"
        unfolding s3 o4 by (simp add: js_def)
      with 4 show ?thesis
        by simp
    qed
  qed
  with tq have "\<forall>k\<le>length ?ps. concat (yielded (?S (take k ?ps))) = last_s (?S (take k ?ps))"
    by blast
  then have c: "concat (yielded (?S ?ps)) = last_s (?S ?ps)"
    by auto
  have oq: "observed 0 ?q = js ''Hello world''"
    by (simp add: eval_string eval_filter eval_surface eval_capture reply_def)
  have "\<not> expired defaultCFG ?C ?q \<and> \<not> isPlaceholderText (observed 0 ?q)
      \<and> length (last_s (?S ?ps)) < length (observed 0 ?q)"
    unfolding oq s4 by (simp add: eval_string eval_filter eval_capture reply_def)
  with tq ph have "?S (?ps @ [?q])
      = (?S ?ps)\<lparr>last_s := observed 0 ?q, lastChangeAt_s := at_change ?q,
          yielded := yielded (?S ?ps) @ [drop (length (last_s (?S ?ps))) (observed 0 ?q)]\<rparr>"
    by blast
  then have q: "?S (?ps @ [?q]) = \<lparr>last_s = js ''Hello world'', lastChangeAt_s = 400,
          yielded = [js ''Hel'', js ''lo'', js '' world'']\<rparr>"
    unfolding oq s4 by (simp add: js_def reply_def tick_def)
  have or: "observed 0 ?r = js ''Help''"
    by (simp add: eval_string eval_filter eval_surface eval_capture reply_def)
  have "\<not> length (last_s (?S ?ps)) < length (observed 0 ?r)"
    unfolding or s4 by (simp add: js_def)
  with tr have "?S (?ps @ [?r]) = ?S ?ps"
    by blast
  with s4 have r: "?S (?ps @ [?r])
      = \<lparr>last_s = js ''Hello'', lastChangeAt_s = 300, yielded = [js ''Hel'', js ''lo'']\<rparr>"
    by simp
  have f1: "stream_state defaultCFG 0 ?F (polls ?F)
      = \<lparr>last_s = js ''Hello'', lastChangeAt_s = 300, yielded = [js ''Hel'', js ''lo'']\<rparr>"
    by (simp add: eval_string eval_filter eval_surface eval_capture reply_def)
  have f2: "snd (readAnswerInChunks defaultCFG 0 ?F)"
    by (simp add: eval_string eval_filter eval_surface eval_capture reply_def)
  have f3: "cleanChunk (grabAnswerText 0 (final_page ?F)) = js ''Hello!''"
    by (simp add: eval_string eval_filter eval_surface eval_capture)
  from tf have "fst (readAnswerInChunks defaultCFG 0 ?F) =
       (if snd (readAnswerInChunks defaultCFG 0 ?F)
           \<and> length (last_s (stream_state defaultCFG 0 ?F (polls ?F)))
               < length (cleanChunk (grabAnswerText 0 (final_page ?F)))
        then yielded (stream_state defaultCFG 0 ?F (polls ?F))
               @ [drop (length (last_s (stream_state defaultCFG 0 ?F (polls ?F))))
                    (cleanChunk (grabAnswerText 0 (final_page ?F)))]
        else yielded (stream_state defaultCFG 0 ?F (polls ?F)))"
    by blast
  then have "fst (readAnswerInChunks defaultCFG 0 ?F) = [js ''Hel'', js ''lo'', js ''!'']"
    unfolding f1 f3 using f2 by (simp add: js_def)
  with f2 have f: "readAnswerInChunks defaultCFG 0 ?F = ([js ''Hel'', js ''lo'', js ''!''], True)"
    by (cases "readAnswerInChunks defaultCFG 0 ?F") simp
  from o s4 c q r f show ?thesis
    by simp
qed

text \<open>
  The claim as the specification words it fails: after \<open>Hello\<close>, a longer text that does
  not extend it yields its tail, and the deltas no longer concatenate to the emitted
  text.
\<close>

theorem diverging_text_counterexample:
  "stream_state defaultCFG 0 (capture_of [] None)
     [tick 0 (Some [plain (js ''Hello'') False]),
      tick 100 (Some [plain (js ''Goodbye world'') False])]
     = \<lparr>last_s = js ''Goodbye world'', lastChangeAt_s = 100,
        yielded = [js ''Hello'', js ''ye world'']\<rparr>
   \<and> \<not> prefix (js ''Hello'') (js ''Goodbye world'')
   \<and> concat [js ''Hello'', js ''ye world''] \<noteq> js ''Goodbye world''"
  by (simp add: eval_string eval_filter eval_surface eval_capture)


section \<open>The aggregate loop\<close>

text \<open>What one pass of the aggregate loop can do, by its outcome.\<close>

lemma wait_step_Expired:
  assumes "wait_step cfg b (at_t0 obs) s p = Expired s'"
  shows "expired cfg obs p \<and> s' = s"
  using assms
  by (auto simp: wait_step_def expired_def Let_def split: if_splits)

lemma wait_step_expired:
  assumes "expired cfg obs p"
  shows "wait_step cfg b (at_t0 obs) s p = Expired s"
  using assms by (simp add: wait_step_def expired_def)

lemma wait_step_Continue:
  assumes "wait_step cfg b (at_t0 obs) s p = Continue s'"
  shows "\<not> expired cfg obs p
    \<and> ((s' = s \<and> (observed_final b p = [] \<or> observed_final b p = lastText s))
       \<or> (observed_final b p \<noteq> [] \<and> observed_final b p \<noteq> lastText s
          \<and> s' = \<lparr>lastText = observed_final b p, lastChangeAt = at_change p,
                   everHadText = True\<rparr>))"
  using assms
  by (auto simp: wait_step_def expired_def observed_final_def Let_def split: if_splits)

lemma wait_step_Return:
  assumes "wait_step cfg b (at_t0 obs) s p = Return t"
  shows "\<not> expired cfg obs p \<and> \<not> spinning (getBubbleState b (page p))
    \<and> ((t = lastText s \<and> everHadText s
          \<and> (observed_final b p = [] \<or> observed_final b p = lastText s)
          \<and> STABLE_MS cfg \<le> at_stable p - lastChangeAt s)
       \<or> (t = observed_final b p \<and> t \<noteq> [] \<and> t \<noteq> lastText s
          \<and> (length t \<le> 5 \<or> STABLE_MS cfg \<le> at_stable p - at_change p)))"
  using assms
  by (auto simp: wait_step_def expired_def observed_final_def Let_def split: if_splits)

lemma wait_loop_append:
  "wait_loop cfg b t0 s (ps @ qs) =
     (case wait_loop cfg b t0 s ps of
        Continue s' \<Rightarrow> wait_loop cfg b t0 s' qs
      | Return t \<Rightarrow> Return t
      | Expired s' \<Rightarrow> Expired s')"
proof (induction ps arbitrary: s)
  case Nil
  show ?case by simp
next
  case (Cons p ps)
  show ?case by (simp add: Cons.IH split: wctl.splits)
qed

text \<open>
  The loop keeps the flag everHadText in step with lastText, and whatever text it holds
  or returns is the filtered text of one of its polls.
\<close>

lemma wait_loop_Continue:
  assumes "wf_wstate s" "wait_loop cfg b (at_t0 obs) s ps = Continue s'"
  shows "wf_wstate s'
    \<and> (\<forall>r\<in>set ps. \<not> expired cfg obs r)
    \<and> (everHadText s' \<longleftrightarrow> everHadText s \<or> (\<exists>r\<in>set ps. observed_final b r \<noteq> []))
    \<and> (lastText s' = lastText s \<or> (\<exists>r\<in>set ps. lastText s' = observed_final b r))"
  using assms
proof (induction ps arbitrary: s)
  case Nil
  then show ?case by simp
next
  case (Cons p ps)
  from Cons.prems(2) obtain s1 where
    e: "wait_step cfg b (at_t0 obs) s p = Continue s1"
    and l: "wait_loop cfg b (at_t0 obs) s1 ps = Continue s'"
    by (auto split: wctl.splits)
  note c = wait_step_Continue [OF e]
  from c Cons.prems(1) have w1: "wf_wstate s1"
    by (auto simp: wf_wstate_def)
  from c Cons.prems(1) have ev: "everHadText s1 \<longleftrightarrow> everHadText s \<or> observed_final b p \<noteq> []"
    by (auto simp: wf_wstate_def)
  from c have lt: "lastText s1 = lastText s \<or> lastText s1 = observed_final b p"
    by auto
  from Cons.IH [OF w1 l] c ev lt show ?case
    by auto
qed

lemma wait_loop_Return:
  assumes "wf_wstate s" "wait_loop cfg b (at_t0 (obs::capture_obs)) s ps = Return t"
  shows "t \<noteq> [] \<and> ((t = lastText s \<and> everHadText s) \<or> (\<exists>r\<in>set ps. t = observed_final b r))"
  using assms
proof (induction ps arbitrary: s)
  case Nil
  then show ?case by simp
next
  case (Cons p ps)
  show ?case
  proof (cases "wait_step cfg b (at_t0 obs) s p")
    case (Continue s1)
    with Cons.prems(2) have l: "wait_loop cfg b (at_t0 obs) s1 ps = Return t"
      by simp
    note c = wait_step_Continue [OF Continue]
    from c Cons.prems(1) have w1: "wf_wstate s1"
      by (auto simp: wf_wstate_def)
    from Cons.IH [OF w1 l] c show ?thesis
      by auto
  next
    case (Return u)
    with Cons.prems(2) have "u = t" by simp
    with wait_step_Return [OF Return] Cons.prems(1) show ?thesis
      by (auto simp: wf_wstate_def)
  next
    case (Expired s1)
    with Cons.prems(2) show ?thesis by simp
  qed
qed

lemma wait_loop_Expired:
  assumes "wait_loop cfg b (at_t0 obs) s ps = Expired s'"
  shows "\<exists>ps1 q rest. ps = ps1 @ q # rest \<and> expired cfg obs q
           \<and> wait_loop cfg b (at_t0 obs) s ps1 = Continue s'"
  using assms
proof (induction ps arbitrary: s)
  case Nil
  then show ?case by simp
next
  case (Cons p ps)
  show ?case
  proof (cases "wait_step cfg b (at_t0 obs) s p")
    case (Continue s1)
    with Cons.prems have "wait_loop cfg b (at_t0 obs) s1 ps = Expired s'"
      by simp
    from Cons.IH [OF this] obtain ps1 q rest where
      d: "ps = ps1 @ q # rest" "expired cfg obs q"
        "wait_loop cfg b (at_t0 obs) s1 ps1 = Continue s'"
      by blast
    from d Continue have "p # ps = (p # ps1) @ q # rest \<and> expired cfg obs q
           \<and> wait_loop cfg b (at_t0 obs) s (p # ps1) = Continue s'"
      by simp
    then show ?thesis by blast
  next
    case (Return u)
    with Cons.prems show ?thesis by simp
  next
    case (Expired s1)
    with Cons.prems have "s1 = s'" by simp
    with wait_step_Expired [OF Expired] have "p # ps = [] @ p # ps \<and> expired cfg obs p
           \<and> wait_loop cfg b (at_t0 obs) s [] = Continue s'"
      by simp
    then show ?thesis by blast
  qed
qed

lemma wait_loop_silent:
  assumes "\<not> everHadText s" "lastText s = []"
    "\<forall>r\<in>set ps. \<not> expired cfg obs r \<and> observed_final b r = []"
  shows "wait_loop cfg b (at_t0 obs) s ps = Continue s"
  using assms(3)
proof (induction ps)
  case Nil
  show ?case by simp
next
  case (Cons p ps)
  from Cons.prems assms(1,2) have "wait_step cfg b (at_t0 obs) s p = Continue s"
    by (simp add: wait_step_def expired_def observed_final_def)
  with Cons show ?case by simp
qed

lemma wait_loop_timeout:
  assumes "expired cfg obs q" "wait_loop cfg b (at_t0 obs) s ps = Continue s'"
  shows "wait_loop cfg b (at_t0 obs) s (ps @ q # rest) = Expired s'"
  using assms by (simp add: wait_loop_append wait_step_expired)

lemma wf_wait_init: "wf_wstate (wait_init obs)"
  by (simp add: wf_wstate_def wait_init_def)

text \<open>Both loops have ended once a poll has found the time used up.\<close>

lemma wait_loop_ends:
  assumes "\<exists>q\<in>set ps. expired cfg obs q"
  shows "\<forall>s'. wait_loop cfg b (at_t0 obs) s ps \<noteq> Continue s'"
  using assms
proof (induction ps arbitrary: s)
  case Nil
  then show ?case by simp
next
  case (Cons p ps)
  show ?case
  proof (cases "wait_step cfg b (at_t0 obs) s p")
    case (Continue s1)
    from wait_step_Continue [OF Continue] Cons.prems
    have "\<exists>q\<in>set ps. expired cfg obs q"
      by auto
    from Cons.IH [OF this] Continue show ?thesis
      by simp
  next
    case (Return t)
    then show ?thesis by simp
  next
    case (Expired s1)
    then show ?thesis by simp
  qed
qed

lemma waitForFinalAnswer_ends:
  assumes "\<exists>q\<in>set (polls obs). expired cfg obs q"
  shows "waitForFinalAnswer cfg b obs \<noteq> None"
  using wait_loop_ends [OF assms, of b "wait_init obs"]
  by (auto simp: waitForFinalAnswer_def split: wctl.splits)

lemma chunk_loop_ends:
  assumes "\<exists>q\<in>set ps. expired cfg obs q"
  shows "fst (chunk_loop cfg b (at_t0 obs) s ps) \<noteq> Polling"
  using assms
proof (induction ps arbitrary: s)
  case Nil
  then show ?case by simp
next
  case (Cons p ps)
  obtain ph s1 where e: "chunk_step cfg b (at_t0 obs) s p = (ph, s1)"
    by (cases "chunk_step cfg b (at_t0 obs) s p")
  show ?case
  proof (cases ph)
    case Polling
    with e have "\<not> expired cfg obs p"
      by (auto simp: chunk_step_def expired_def Let_def split: if_splits)
    with Cons.prems have "\<exists>q\<in>set ps. expired cfg obs q"
      by auto
    from Cons.IH [OF this] e Polling show ?thesis
      by simp
  next
    case Stable
    with e show ?thesis by simp
  next
    case TimedOut
    with e show ?thesis by simp
  qed
qed

lemma readAnswerInChunks_ends:
  assumes "\<exists>q\<in>set (polls obs). expired cfg obs q"
  shows "snd (readAnswerInChunks cfg b obs)"
  using chunk_loop_ends [OF assms, of b "chunk_init obs"]
  by (auto simp: readAnswerInChunks_def split: prod.splits phase.splits)

section \<open>NoTextCaptured\<close>

lemma no_text_iff:
  "waitForFinalAnswer cfg b obs = Some (Inl e) \<longleftrightarrow>
     e = no_text_captured
     \<and> (\<exists>ps q rest. polls obs = ps @ q # rest \<and> expired cfg obs q
          \<and> (\<forall>r\<in>set ps. \<not> expired cfg obs r \<and> observed_final b r = []))"
proof
  assume a: "waitForFinalAnswer cfg b obs = Some (Inl e)"
  then obtain s where x: "wait_loop cfg b (at_t0 obs) (wait_init obs) (polls obs) = Expired s"
    and n: "\<not> everHadText s" and e: "e = no_text_captured"
    by (auto simp: waitForFinalAnswer_def split: wctl.splits if_splits)
  from wait_loop_Expired [OF x] obtain ps q rest where
    d: "polls obs = ps @ q # rest" "expired cfg obs q"
      "wait_loop cfg b (at_t0 obs) (wait_init obs) ps = Continue s"
    by blast
  from wait_loop_Continue [OF wf_wait_init d(3)] n
  have "\<forall>r\<in>set ps. \<not> expired cfg obs r \<and> observed_final b r = []"
    by auto
  with d e show "e = no_text_captured
     \<and> (\<exists>ps q rest. polls obs = ps @ q # rest \<and> expired cfg obs q
          \<and> (\<forall>r\<in>set ps. \<not> expired cfg obs r \<and> observed_final b r = []))"
    by blast
next
  assume "e = no_text_captured
     \<and> (\<exists>ps q rest. polls obs = ps @ q # rest \<and> expired cfg obs q
          \<and> (\<forall>r\<in>set ps. \<not> expired cfg obs r \<and> observed_final b r = []))"
  then obtain ps q rest where e: "e = no_text_captured"
    and d: "polls obs = ps @ q # rest" "expired cfg obs q"
      "\<forall>r\<in>set ps. \<not> expired cfg obs r \<and> observed_final b r = []"
    by blast
  have "wait_loop cfg b (at_t0 obs) (wait_init obs) ps = Continue (wait_init obs)"
    by (rule wait_loop_silent) (simp_all add: wait_init_def d(3))
  from wait_loop_timeout [OF d(2) this]
  have "wait_loop cfg b (at_t0 obs) (wait_init obs) (polls obs) = Expired (wait_init obs)"
    by (simp add: d(1))
  with e show "waitForFinalAnswer cfg b obs = Some (Inl e)"
    by (simp add: waitForFinalAnswer_def wait_init_def)
qed

lemma partial_text_returned:
  assumes "polls obs = ps @ q # rest" "expired cfg obs q"
    "\<forall>r\<in>set ps. \<not> expired cfg obs r" "\<exists>r\<in>set ps. observed_final b r \<noteq> []"
  shows "\<exists>t. t \<noteq> [] \<and> (\<exists>r\<in>set ps. t = observed_final b r)
           \<and> waitForFinalAnswer cfg b obs = Some (Inr t)"
proof (cases "wait_loop cfg b (at_t0 obs) (wait_init obs) ps")
  case (Continue s)
  from wait_loop_Continue [OF wf_wait_init Continue] assms(4)
  have s: "everHadText s" "lastText s \<noteq> []" "\<exists>r\<in>set ps. lastText s = observed_final b r"
    by (auto simp: wf_wstate_def wait_init_def)
  from wait_loop_timeout [OF assms(2) Continue] assms(1)
  have "wait_loop cfg b (at_t0 obs) (wait_init obs) (polls obs) = Expired s"
    by simp
  with s(1) have "waitForFinalAnswer cfg b obs = Some (Inr (lastText s))"
    by (simp add: waitForFinalAnswer_def)
  with s show ?thesis by blast
next
  case (Return t)
  from wait_loop_Return [OF wf_wait_init Return]
  have t: "t \<noteq> []" "\<exists>r\<in>set ps. t = observed_final b r"
    by (auto simp: wait_init_def)
  from Return assms(1) have "waitForFinalAnswer cfg b obs = Some (Inr t)"
    by (simp add: waitForFinalAnswer_def wait_loop_append)
  with t show ?thesis by blast
next
  case (Expired s)
  from wait_loop_Expired [OF Expired] assms(3) show ?thesis
    by auto
qed

lemma caught_no_text_captured:
  "caught no_text_captured = JsonError 502 (js ''no_text_captured'')"
  by (simp add: caught_def catch_reason_def messageOf_def no_text_captured_def js_def)

text \<open>
  Claim C4. waitForFinalAnswer throws exactly when its loop is left by the timeout before
  any poll has observed a non-empty filtered text: the error is then no_text_captured,
  and some poll finds the time used up while every poll before it was in time and
  observed nothing. When the loop is left by the timeout, or earlier, after some poll in
  time has observed text, the function returns a non-empty text that one of those polls
  observed, and does not throw. The handler answers the error with status 502 and the
  reason no_text_captured.
\<close>

theorem no_text_captured_iff:
  "(waitForFinalAnswer cfg b obs = Some (Inl e) \<longleftrightarrow>
      e = no_text_captured
      \<and> (\<exists>ps q rest. polls obs = ps @ q # rest \<and> expired cfg obs q
           \<and> (\<forall>r\<in>set ps. \<not> expired cfg obs r \<and> observed_final b r = [])))
   \<and> (\<forall>ps q rest.
         polls obs = ps @ q # rest \<and> expired cfg obs q
         \<and> (\<forall>r\<in>set ps. \<not> expired cfg obs r)
         \<and> (\<exists>r\<in>set ps. observed_final b r \<noteq> [])
         \<longrightarrow> (\<exists>t. t \<noteq> [] \<and> (\<exists>r\<in>set ps. t = observed_final b r)
                \<and> waitForFinalAnswer cfg b obs = Some (Inr t)))
   \<and> caught no_text_captured = JsonError 502 (js ''no_text_captured'')"
  using no_text_iff [of cfg b obs e] partial_text_returned [of obs _ _ _ cfg b]
    caught_no_text_captured
  by blast

text \<open>
  Scenario A of the specification: at baseline 0 the page never shows a bubble, and the
  second poll finds the 60000 ms used up. And a capture whose bubble still spins when the
  time is used up returns the text it has.
\<close>

theorem no_text_captured_iff_witness:
  "waitForFinalAnswer defaultCFG 0 (capture_of [tick 0 (Some []), tick 60000 (Some [])] None)
     = Some (Inl no_text_captured)
   \<and> waitForFinalAnswer defaultCFG 0
       (capture_of [tick 0 (Some [plain (js ''Partial'') True]),
                    tick 60000 (Some [plain (js ''Partial'') True])] None)
     = Some (Inr (js ''Partial''))"
proof -
  let ?A = "capture_of [tick 0 (Some []), tick 60000 (Some [])] None"
  let ?p = "tick 0 (Some [plain (js ''Partial'') True])"
  let ?q = "tick 60000 (Some [plain (js ''Partial'') True])"
  let ?B = "capture_of [?p, ?q] None"
  have "polls ?A = [tick 0 (Some [])] @ tick 60000 (Some []) # []
      \<and> expired defaultCFG ?A (tick 60000 (Some []))
      \<and> (\<forall>r\<in>set [tick 0 (Some [])]. \<not> expired defaultCFG ?A r \<and> observed_final 0 r = [])"
    by (simp add: eval_string eval_filter eval_surface eval_capture)
  then have "\<exists>ps q rest. polls ?A = ps @ q # rest \<and> expired defaultCFG ?A q
      \<and> (\<forall>r\<in>set ps. \<not> expired defaultCFG ?A r \<and> observed_final 0 r = [])"
    by blast
  with no_text_captured_iff [of defaultCFG 0 ?A no_text_captured]
  have a: "waitForFinalAnswer defaultCFG 0 ?A = Some (Inl no_text_captured)"
    by blast
  have ob: "observed_final 0 ?p = js ''Partial''"
    by (simp add: eval_string eval_filter eval_surface eval_capture)
  have "polls ?B = [?p] @ ?q # [] \<and> expired defaultCFG ?B ?q
      \<and> (\<forall>r\<in>set [?p]. \<not> expired defaultCFG ?B r)
      \<and> (\<exists>r\<in>set [?p]. observed_final 0 r \<noteq> [])"
    unfolding list.set ball_simps bex_simps ob
    by (simp add: eval_capture js_def)
  with no_text_captured_iff [of defaultCFG 0 ?B no_text_captured]
  have "\<exists>t. t \<noteq> [] \<and> (\<exists>r\<in>set [?p]. t = observed_final 0 r)
      \<and> waitForFinalAnswer defaultCFG 0 ?B = Some (Inr t)"
    by blast
  then have b: "waitForFinalAnswer defaultCFG 0 ?B = Some (Inr (js ''Partial''))"
    using ob by auto
  from a b show ?thesis by blast
qed

section \<open>Completion\<close>

lemma chunk_step_Stable:
  assumes "chunk_step cfg b (at_t0 obs) c p = (Stable, c')"
  shows "last_s c' \<noteq> [] \<and> \<not> expired cfg obs p
    \<and> STABLE_MS cfg \<le> at_stable p - lastChangeAt_s c'"
  using assms
  by (auto simp: chunk_step_def expired_def Let_def split: if_splits)

lemma wait_run_snoc_Return:
  assumes "wait_run cfg b obs ps = Continue s" "wait_run cfg b obs (ps @ [p]) = Return t"
  shows "wf_wstate s \<and> wait_step cfg b (at_t0 obs) s p = Return t"
proof -
  from assms(1) have l: "wait_loop cfg b (at_t0 obs) (wait_init obs) ps = Continue s"
    by (simp add: wait_run_def)
  from wait_loop_Continue [OF wf_wait_init l] have w: "wf_wstate s" by simp
  from assms(2) l have "wait_step cfg b (at_t0 obs) s p = Return t"
    by (simp add: wait_run_def wait_loop_append split: wctl.splits)
  with w show ?thesis by simp
qed

lemma aggregate_completion:
  assumes "wait_run cfg b obs ps = Continue s" "wait_run cfg b obs (ps @ [p]) = Return t"
  shows "t \<noteq> [] \<and> \<not> spinning (getBubbleState b (page p)) \<and> \<not> expired cfg obs p
      \<and> ((t = lastText s \<and> STABLE_MS cfg \<le> at_stable p - lastChangeAt s)
         \<or> (t = observed_final b p \<and> t \<noteq> lastText s
            \<and> (length t \<le> 5 \<or> STABLE_MS cfg \<le> at_stable p - at_change p)))"
proof -
  from wait_run_snoc_Return [OF assms]
  have w: "wf_wstate s" and e: "wait_step cfg b (at_t0 obs) s p = Return t"
    by simp_all
  from wait_step_Return [OF e] w show ?thesis
    by (auto simp: wf_wstate_def)
qed

lemma streaming_completion:
  assumes "stream_run cfg b obs ps = (Polling, c)"
    "stream_run cfg b obs (ps @ [p]) = (Stable, c')"
  shows "last_s c' \<noteq> [] \<and> \<not> expired cfg obs p
    \<and> STABLE_MS cfg \<le> at_stable p - lastChangeAt_s c'"
proof -
  from assms have "chunk_step cfg b (at_t0 obs) c p = (Stable, c')"
    by (simp add: stream_run_def chunk_loop_snoc)
  from chunk_step_Stable [OF this] show ?thesis .
qed

text \<open>
  Claim C2, as the code has it. The aggregate form returns from inside its loop only on a
  poll in time whose bubble does not spin, with a non-empty text, and then either the
  text is the one held since the last recorded change and STABLE_MS have passed since it,
  or the text changed on this very poll and is at most 5 units long or STABLE_MS have
  passed since the change was recorded. The streaming form leaves its loop by stability
  only on a poll in time, with a non-empty emitted text, STABLE_MS after the last
  emission; the spinning indicator is no part of its test. Besides, both forms have
  ended once a poll has found MAX_ANSWER_MS used up.
\<close>

theorem completion_rule:
  "(wait_run cfg b obs ps = Continue s \<and> wait_run cfg b obs (ps @ [p]) = Return t \<longrightarrow>
      t \<noteq> [] \<and> \<not> spinning (getBubbleState b (page p)) \<and> \<not> expired cfg obs p
      \<and> ((t = lastText s \<and> STABLE_MS cfg \<le> at_stable p - lastChangeAt s)
         \<or> (t = observed_final b p \<and> t \<noteq> lastText s
            \<and> (length t \<le> 5 \<or> STABLE_MS cfg \<le> at_stable p - at_change p))))
   \<and> (stream_run cfg b obs ps = (Polling, c) \<and> stream_run cfg b obs (ps @ [p]) = (Stable, c')
        \<longrightarrow> last_s c' \<noteq> [] \<and> \<not> expired cfg obs p
            \<and> STABLE_MS cfg \<le> at_stable p - lastChangeAt_s c')
   \<and> ((\<exists>q\<in>set (polls obs). expired cfg obs q)
        \<longrightarrow> waitForFinalAnswer cfg b obs \<noteq> None \<and> snd (readAnswerInChunks cfg b obs))"
  using aggregate_completion [of cfg b obs ps s p t] streaming_completion [of cfg b obs ps c p c']
    waitForFinalAnswer_ends [of obs cfg b] readAnswerInChunks_ends [of obs cfg b]
  by blast

text \<open>
  A reply \<open>Hello world\<close> that is read at clock reading 0 and found unchanged at 1200:
  both forms complete on the second poll, 1200 ms after the change, and so have ended
  before the third poll, which would find the time used up.
\<close>

theorem completion_rule_witness:
  "wait_run defaultCFG 0
      (capture_of [hello False 0, hello False 1200, hello False 60000] (page (hello False 0)))
      [hello False 0]
     = Continue \<lparr>lastText = js ''Hello world'', lastChangeAt = 0, everHadText = True\<rparr>
   \<and> wait_run defaultCFG 0
      (capture_of [hello False 0, hello False 1200, hello False 60000] (page (hello False 0)))
      ([hello False 0] @ [hello False 1200])
     = Return (js ''Hello world'')
   \<and> stream_run defaultCFG 0
      (capture_of [hello False 0, hello False 1200, hello False 60000] (page (hello False 0)))
      [hello False 0]
     = (Polling, \<lparr>last_s = js ''Hello world'', lastChangeAt_s = 0,
                   yielded = [js ''Hello world'']\<rparr>)
   \<and> stream_run defaultCFG 0
      (capture_of [hello False 0, hello False 1200, hello False 60000] (page (hello False 0)))
      ([hello False 0] @ [hello False 1200])
     = (Stable, \<lparr>last_s = js ''Hello world'', lastChangeAt_s = 0,
                  yielded = [js ''Hello world'']\<rparr>)
   \<and> \<not> spinning (getBubbleState 0 (page (hello False 1200)))
   \<and> STABLE_MS defaultCFG \<le> at_stable (hello False 1200) - 0
   \<and> expired defaultCFG
      (capture_of [hello False 0, hello False 1200, hello False 60000] (page (hello False 0)))
      (hello False 60000)
   \<and> waitForFinalAnswer defaultCFG 0
      (capture_of [hello False 0, hello False 1200, hello False 60000] (page (hello False 0)))
     = Some (Inr (js ''Hello world''))
   \<and> readAnswerInChunks defaultCFG 0
      (capture_of [hello False 0, hello False 1200, hello False 60000] (page (hello False 0)))
     = ([js ''Hello world''], True)"
proof -
  let ?p = "hello False 0"
  let ?q = "hello False 1200"
  let ?x = "hello False 60000"
  let ?obs = "capture_of [?p, ?q, ?x] (page ?p)"
  let ?s = "\<lparr>lastText = js ''Hello world'', lastChangeAt = 0, everHadText = True\<rparr>"
  let ?c = "\<lparr>last_s = js ''Hello world'', lastChangeAt_s = 0, yielded = [js ''Hello world'']\<rparr>"
  note t = completion_rule [of defaultCFG 0 ?obs "[?p]" ?s ?q "js ''Hello world''" ?c ?c]
  have a: "wait_run defaultCFG 0 ?obs [?p] = Continue ?s"
    by (simp add: eval_string eval_filter eval_surface eval_capture hello_def)
  have b: "wait_run defaultCFG 0 ?obs ([?p] @ [?q]) = Return (js ''Hello world'')"
    by (simp add: eval_string eval_filter eval_surface eval_capture hello_def)
  have c: "stream_run defaultCFG 0 ?obs [?p] = (Polling, ?c)"
    by (simp add: eval_string eval_filter eval_surface eval_capture hello_def)
  have d: "stream_run defaultCFG 0 ?obs ([?p] @ [?q]) = (Stable, ?c)"
    by (simp add: eval_string eval_filter eval_surface eval_capture hello_def)
  from t a b c d
  have e: "\<not> spinning (getBubbleState 0 (page ?q))
      \<and> STABLE_MS defaultCFG \<le> at_stable ?q - lastChangeAt_s ?c"
    by blast
  have x: "expired defaultCFG ?obs ?x"
    by (simp add: eval_capture hello_def)
  then have "\<exists>q\<in>set (polls ?obs). expired defaultCFG ?obs q"
    by (simp add: capture_of_def)
  with t have f: "waitForFinalAnswer defaultCFG 0 ?obs \<noteq> None
      \<and> snd (readAnswerInChunks defaultCFG 0 ?obs)"
    by blast
  have g: "waitForFinalAnswer defaultCFG 0 ?obs = Some (Inr (js ''Hello world''))"
    by (simp add: eval_string eval_filter eval_surface eval_capture hello_def)
  have h: "readAnswerInChunks defaultCFG 0 ?obs = ([js ''Hello world''], True)"
    by (simp add: eval_string eval_filter eval_surface eval_capture hello_def)
  from a b c d e x f g h show ?thesis by simp
qed

text \<open>
  The rule as the specification words it fails in both forms. The streaming form
  completes by stability on a bubble that is spinning at every poll; and the aggregate
  form returns \<open>OK\<close> on the very poll that first reads it, when no time at all has
  passed since the change.
\<close>

theorem completion_rule_counterexample:
  "stream_run defaultCFG 0 (capture_of [] None) [hello True 0, hello True 1200]
     = (Stable, \<lparr>last_s = js ''Hello world'', lastChangeAt_s = 0,
                  yielded = [js ''Hello world'']\<rparr>)
   \<and> spinning (getBubbleState 0 (page (hello True 0)))
   \<and> spinning (getBubbleState 0 (page (hello True 1200)))
   \<and> readAnswerInChunks defaultCFG 0
        (capture_of [hello True 0, hello True 1200] (page (hello True 1200)))
     = ([js ''Hello world''], True)
   \<and> waitForFinalAnswer defaultCFG 0 (capture_of [tick 0 (Some [plain (js ''OK'') False])] None)
     = Some (Inr (js ''OK''))
   \<and> \<not> STABLE_MS defaultCFG \<le> at_stable (tick 0 (Some [plain (js ''OK'') False])) - 0"
  by (simp add: eval_string eval_filter eval_surface eval_capture hello_def)

section \<open>Short replies\<close>

text \<open>A run of the aggregate loop that is extended by one poll, and the passes of that loop.\<close>

lemma wait_run_snoc:
  assumes "wait_run cfg b obs ps = Continue s"
  shows "wait_run cfg b obs (ps @ [p]) = wait_step cfg b (at_t0 obs) s p"
  using assms by (simp add: wait_run_def wait_loop_append split: wctl.splits)

lemma wait_run_wf:
  assumes "wait_run cfg b obs ps = Continue s"
  shows "wf_wstate s"
proof -
  from assms have "wait_loop cfg b (at_t0 obs) (wait_init obs) ps = Continue s"
    by (simp add: wait_run_def)
  from wait_loop_Continue [OF wf_wait_init this] show ?thesis by simp
qed

lemma wait_step_Return_iff:
  assumes "wf_wstate s" "\<not> expired cfg obs p"
  shows "wait_step cfg b (at_t0 obs) s p = Return t \<longleftrightarrow>
     \<not> spinning (getBubbleState b (page p))
     \<and> ((observed_final b p \<noteq> [] \<and> observed_final b p \<noteq> lastText s \<and> t = observed_final b p
          \<and> (length t \<le> 5 \<or> STABLE_MS cfg \<le> at_stable p - at_change p))
        \<or> ((observed_final b p = [] \<or> observed_final b p = lastText s) \<and> lastText s \<noteq> []
          \<and> t = lastText s \<and> STABLE_MS cfg \<le> at_stable p - lastChangeAt s))"
  using assms
  by (auto simp: wait_step_def expired_def observed_final_def wf_wstate_def Let_def)

lemma wait_step_unchanged:
  assumes "\<not> expired cfg obs p" "observed_final b p = [] \<or> observed_final b p = lastText s"
    "at_stable p - lastChangeAt s < STABLE_MS cfg"
  shows "wait_step cfg b (at_t0 obs) s p = Continue s"
  using assms
  by (auto simp: wait_step_def expired_def observed_final_def Let_def)

lemma waitForFinalAnswer_prefix:
  assumes "polls obs = ps @ qs"
  shows "waitForFinalAnswer cfg b obs =
     (case wait_run cfg b obs ps of
        Continue s \<Rightarrow> (case wait_loop cfg b (at_t0 obs) s qs of
            Continue s' \<Rightarrow> None
          | Return t \<Rightarrow> Some (Inr t)
          | Expired s' \<Rightarrow> Some (if \<not> everHadText s' then Inl no_text_captured else Inr (lastText s')))
      | Return t \<Rightarrow> Some (Inr t)
      | Expired s \<Rightarrow> Some (if \<not> everHadText s then Inl no_text_captured else Inr (lastText s)))"
  using assms
  by (simp add: waitForFinalAnswer_def wait_run_def wait_loop_append split: wctl.splits)

lemma chunk_step_TimedOut:
  assumes "chunk_step cfg b (at_t0 obs) c p = (TimedOut, c')"
  shows "expired cfg obs p"
  using assms
  by (auto simp: chunk_step_def expired_def Let_def split: if_splits)

lemma streaming_waits:
  assumes "fst (stream_run cfg b obs ps) = Polling" "\<not> expired cfg obs p"
    "at_stable p - lastChangeAt_s (stream_state cfg b obs (ps @ [p])) < STABLE_MS cfg"
  shows "fst (stream_run cfg b obs (ps @ [p])) = Polling"
proof -
  obtain c where l: "stream_run cfg b obs ps = (Polling, c)"
    using assms(1) by (cases "stream_run cfg b obs ps") simp
  obtain ph c' where e: "chunk_step cfg b (at_t0 obs) c p = (ph, c')"
    by (cases "chunk_step cfg b (at_t0 obs) c p")
  from l e have r: "stream_run cfg b obs (ps @ [p]) = (ph, c')"
    by (simp add: stream_run_def chunk_loop_snoc)
  then have s: "stream_state cfg b obs (ps @ [p]) = c'"
    by (simp add: stream_run_def stream_state_def)
  have "ph = Polling"
  proof (cases ph)
    case Polling
    then show ?thesis .
  next
    case Stable
    with e chunk_step_Stable [of cfg b obs c p c'] assms(3) s show ?thesis
      by simp
  next
    case TimedOut
    with e chunk_step_TimedOut [of cfg b obs c p c'] assms(2) show ?thesis
      by simp
  qed
  with r show ?thesis by simp
qed

lemma aggregate_short_reply:
  assumes "wait_run cfg b obs ps = Continue s" and "\<not> expired cfg obs p"
  shows "(observed_final b p \<noteq> [] \<and> observed_final b p \<noteq> lastText s
            \<and> length (observed_final b p) \<le> 5 \<and> \<not> spinning (getBubbleState b (page p))
          \<longrightarrow> wait_run cfg b obs (ps @ [p]) = Return (observed_final b p)
              \<and> (polls obs = ps @ p # rest
                   \<longrightarrow> waitForFinalAnswer cfg b obs = Some (Inr (observed_final b p))))
     \<and> ((observed_final b p = [] \<or> observed_final b p = lastText s)
            \<and> at_stable p - lastChangeAt s < STABLE_MS cfg
          \<longrightarrow> wait_run cfg b obs (ps @ [p]) = Continue s
              \<and> (polls obs = ps @ [p] \<longrightarrow> waitForFinalAnswer cfg b obs = None))
     \<and> (wait_run cfg b obs (ps @ [p]) = Return t \<longleftrightarrow>
          \<not> spinning (getBubbleState b (page p))
          \<and> ((observed_final b p \<noteq> [] \<and> observed_final b p \<noteq> lastText s
                \<and> t = observed_final b p
                \<and> (length t \<le> 5 \<or> STABLE_MS cfg \<le> at_stable p - at_change p))
             \<or> ((observed_final b p = [] \<or> observed_final b p = lastText s)
                \<and> lastText s \<noteq> [] \<and> t = lastText s
                \<and> STABLE_MS cfg \<le> at_stable p - lastChangeAt s)))"
proof -
  note w = wait_run_wf [OF assms(1)]
  note e = wait_run_snoc [OF assms(1), of p]
  note r = wait_step_Return_iff [OF w assms(2), of b]
  have a: "wait_run cfg b obs (ps @ [p]) = Return (observed_final b p)"
    if "observed_final b p \<noteq> []" "observed_final b p \<noteq> lastText s"
      "length (observed_final b p) \<le> 5" "\<not> spinning (getBubbleState b (page p))"
    using that e r [of "observed_final b p"] by simp
  have a': "waitForFinalAnswer cfg b obs = Some (Inr (observed_final b p))"
    if "wait_run cfg b obs (ps @ [p]) = Return (observed_final b p)" "polls obs = ps @ p # rest"
  proof -
    from that(2) have "polls obs = (ps @ [p]) @ rest" by simp
    from waitForFinalAnswer_prefix [OF this] that(1) show ?thesis by simp
  qed
  have c: "wait_run cfg b obs (ps @ [p]) = Continue s"
    if "observed_final b p = [] \<or> observed_final b p = lastText s"
      "at_stable p - lastChangeAt s < STABLE_MS cfg"
    using e wait_step_unchanged [OF assms(2) that] by simp
  have c': "waitForFinalAnswer cfg b obs = None"
    if "wait_run cfg b obs (ps @ [p]) = Continue s" "polls obs = ps @ [p]"
  proof -
    from that(2) have "polls obs = (ps @ [p]) @ []" by simp
    from waitForFinalAnswer_prefix [OF this] that(1) show ?thesis by simp
  qed
  from e r [of t] have i: "wait_run cfg b obs (ps @ [p]) = Return t \<longleftrightarrow>
          \<not> spinning (getBubbleState b (page p))
          \<and> ((observed_final b p \<noteq> [] \<and> observed_final b p \<noteq> lastText s
                \<and> t = observed_final b p
                \<and> (length t \<le> 5 \<or> STABLE_MS cfg \<le> at_stable p - at_change p))
             \<or> ((observed_final b p = [] \<or> observed_final b p = lastText s)
                \<and> lastText s \<noteq> [] \<and> t = lastText s
                \<and> STABLE_MS cfg \<le> at_stable p - lastChangeAt s))"
    by simp
  from a a' c c' i show ?thesis
    by blast
qed


text \<open>
  Claim C7, as the code has it: the rule is the aggregate form's alone, and it sits in
  the branch that records a change of the text. While the aggregate loop is running, on
  a poll in time: a filtered text that is not empty and differs from the recorded text,
  is at most 5 units long and is read from a bubble that does not spin makes
  waitForFinalAnswer return that text on this poll, whatever STABLE_MS and the clock say
  and whatever polls would follow; a text that is empty or equal to the recorded one
  returns nothing before STABLE_MS have passed since the recorded change, however short
  it is; and the loop returns on this poll exactly when the bubble does not spin and
  either the text changed and is at most 5 units long or has its change STABLE_MS behind
  it, or the text did not change, some text is recorded and STABLE_MS have passed since
  its change. The streaming loop has no such rule: on a poll in time it goes on polling
  whenever less than STABLE_MS have passed since its last emission, whatever the length
  of the text and the state of the spinner.
\<close>

theorem short_reply_law:
  "(wait_run cfg b obs ps = Continue s \<and> \<not> expired cfg obs p \<longrightarrow>
     (observed_final b p \<noteq> [] \<and> observed_final b p \<noteq> lastText s
            \<and> length (observed_final b p) \<le> 5 \<and> \<not> spinning (getBubbleState b (page p))
          \<longrightarrow> wait_run cfg b obs (ps @ [p]) = Return (observed_final b p)
              \<and> (polls obs = ps @ p # rest
                   \<longrightarrow> waitForFinalAnswer cfg b obs = Some (Inr (observed_final b p))))
     \<and> ((observed_final b p = [] \<or> observed_final b p = lastText s)
            \<and> at_stable p - lastChangeAt s < STABLE_MS cfg
          \<longrightarrow> wait_run cfg b obs (ps @ [p]) = Continue s
              \<and> (polls obs = ps @ [p] \<longrightarrow> waitForFinalAnswer cfg b obs = None))
     \<and> (wait_run cfg b obs (ps @ [p]) = Return t \<longleftrightarrow>
          \<not> spinning (getBubbleState b (page p))
          \<and> ((observed_final b p \<noteq> [] \<and> observed_final b p \<noteq> lastText s
                \<and> t = observed_final b p
                \<and> (length t \<le> 5 \<or> STABLE_MS cfg \<le> at_stable p - at_change p))
             \<or> ((observed_final b p = [] \<or> observed_final b p = lastText s)
                \<and> lastText s \<noteq> [] \<and> t = lastText s
                \<and> STABLE_MS cfg \<le> at_stable p - lastChangeAt s))))
   \<and> (fst (stream_run cfg b obs ps) = Polling \<and> \<not> expired cfg obs p
        \<and> at_stable p - lastChangeAt_s (stream_state cfg b obs (ps @ [p])) < STABLE_MS cfg
      \<longrightarrow> fst (stream_run cfg b obs (ps @ [p])) = Polling)"
  using aggregate_short_reply [of cfg b obs ps s p rest t] streaming_waits [of cfg b obs ps p]
  by blast

text \<open>
  After an empty page, \<open>OK\<close> without a spinner at clock reading 100: the aggregate
  capture returns \<open>OK\<close> there and never looks at the later poll. After \<open>Hm\<close> under a
  spinner, \<open>OK\<close> without one: the change to \<open>OK\<close> returns at once. But after \<open>OK\<close>
  under a spinner, the same \<open>OK\<close> without the spinner is no change, and the loop goes
  on polling. And the streaming loop, which is in time and has just emitted \<open>OK\<close>, goes
  on polling too.
\<close>

theorem short_reply_law_witness:
  "wait_run defaultCFG 0
      (capture_of [reply [] False 0, reply (js ''OK'') False 100,
                   reply (js ''OK, and more'') False 200] None)
      [reply [] False 0]
     = Continue \<lparr>lastText = [], lastChangeAt = 0, everHadText = False\<rparr>
   \<and> waitForFinalAnswer defaultCFG 0
      (capture_of [reply [] False 0, reply (js ''OK'') False 100,
                   reply (js ''OK, and more'') False 200] None)
     = Some (Inr (js ''OK''))
   \<and> wait_run defaultCFG 0
      (capture_of [reply (js ''Hm'') True 0, reply (js ''OK'') False 100] None)
      ([reply (js ''Hm'') True 0] @ [reply (js ''OK'') False 100])
     = Return (js ''OK'')
   \<and> wait_run defaultCFG 0
      (capture_of [reply (js ''OK'') True 0, reply (js ''OK'') False 100] None)
      [reply (js ''OK'') True 0]
     = Continue \<lparr>lastText = js ''OK'', lastChangeAt = 0, everHadText = True\<rparr>
   \<and> wait_run defaultCFG 0
      (capture_of [reply (js ''OK'') True 0, reply (js ''OK'') False 100] None)
      ([reply (js ''OK'') True 0] @ [reply (js ''OK'') False 100])
     = Continue \<lparr>lastText = js ''OK'', lastChangeAt = 0, everHadText = True\<rparr>
   \<and> waitForFinalAnswer defaultCFG 0
      (capture_of [reply (js ''OK'') True 0, reply (js ''OK'') False 100] None)
     = None
   \<and> fst (stream_run defaultCFG 0 (capture_of [] None) ([] @ [reply (js ''OK'') False 100]))
       = Polling"
proof -
  let ?e = "reply [] False 0"
  let ?ok = "reply (js ''OK'') False 100"
  let ?more = "reply (js ''OK, and more'') False 200"
  let ?hm = "reply (js ''Hm'') True 0"
  let ?sp = "reply (js ''OK'') True 0"
  let ?A = "capture_of [?e, ?ok, ?more] None"
  let ?B = "capture_of [?hm, ?ok] None"
  let ?D = "capture_of [?sp, ?ok] None"
  let ?s0 = "\<lparr>lastText = [], lastChangeAt = 0, everHadText = False\<rparr>"
  let ?sh = "\<lparr>lastText = js ''Hm'', lastChangeAt = 0, everHadText = True\<rparr>"
  let ?so = "\<lparr>lastText = js ''OK'', lastChangeAt = 0, everHadText = True\<rparr>"
  have ob: "observed_final 0 ?ok = js ''OK''"
    by (simp add: eval_string eval_filter eval_surface eval_capture reply_def)
  have sp: "\<not> spinning (getBubbleState 0 (page ?ok))"
    by (simp add: eval_surface eval_capture reply_def)
  have a1: "wait_run defaultCFG 0 ?A [?e] = Continue ?s0"
    by (simp add: eval_string eval_filter eval_surface eval_capture reply_def)
  have a2: "\<not> expired defaultCFG ?A ?ok"
    by (simp add: eval_capture reply_def)
  have a3: "polls ?A = [?e] @ ?ok # [?more]"
    by (simp add: capture_of_def)
  from short_reply_law [of defaultCFG 0 ?A "[?e]" ?s0 ?ok "[?more]" "js ''OK''"] a1 a2 ob sp a3
  have a: "waitForFinalAnswer defaultCFG 0 ?A = Some (Inr (js ''OK''))"
    by (simp add: js_def)
  have b1: "wait_run defaultCFG 0 ?B [?hm] = Continue ?sh"
    by (simp add: eval_string eval_filter eval_surface eval_capture reply_def)
  have b2: "\<not> expired defaultCFG ?B ?ok"
    by (simp add: eval_capture reply_def)
  from short_reply_law [of defaultCFG 0 ?B "[?hm]" ?sh ?ok "[]" "js ''OK''"] b1 b2 ob sp
  have b: "wait_run defaultCFG 0 ?B ([?hm] @ [?ok]) = Return (js ''OK'')"
    by (simp add: js_def)
  have d1: "wait_run defaultCFG 0 ?D [?sp] = Continue ?so"
    by (simp add: eval_string eval_filter eval_surface eval_capture reply_def)
  have d2: "\<not> expired defaultCFG ?D ?ok"
    by (simp add: eval_capture reply_def)
  have d3: "at_stable ?ok - lastChangeAt ?so < STABLE_MS defaultCFG"
    by (simp add: eval_capture reply_def)
  have d4: "polls ?D = [?sp] @ [?ok]"
    by (simp add: capture_of_def)
  from short_reply_law [of defaultCFG 0 ?D "[?sp]" ?so ?ok "[]" "js ''OK''"] d1 d2 ob d3 d4
  have d: "wait_run defaultCFG 0 ?D ([?sp] @ [?ok]) = Continue ?so
      \<and> waitForFinalAnswer defaultCFG 0 ?D = None"
    by simp
  have e1: "fst (stream_run defaultCFG 0 (capture_of [] None) []) = Polling"
    by (simp add: eval_capture)
  have e2: "\<not> expired defaultCFG (capture_of [] None) ?ok"
    by (simp add: eval_capture reply_def)
  have e3: "at_stable ?ok
      - lastChangeAt_s (stream_state defaultCFG 0 (capture_of [] None) ([] @ [?ok]))
      < STABLE_MS defaultCFG"
    by (simp add: eval_string eval_filter eval_surface eval_capture reply_def)
  from short_reply_law [of defaultCFG 0 "capture_of [] None" "[]" ?s0 ?ok "[]" "js ''OK''"]
    e1 e2 e3
  have e: "fst (stream_run defaultCFG 0 (capture_of [] None) ([] @ [?ok])) = Polling"
    by blast
  from a1 a b d1 d e show ?thesis
    by blast
qed

text \<open>
  The law as the specification words it, for any capture, fails in both forms. In the
  streaming form the poll that first reads \<open>OK\<close> on a bubble without spinner yields it
  and goes on polling, and the generator has not finished. In the aggregate form, when
  \<open>OK\<close> was first read under a spinner, the first poll that observes it with the
  spinner off does not complete the capture.
\<close>

theorem short_reply_counterexample:
  "stream_run defaultCFG 0 (capture_of [] None) [reply (js ''OK'') False 0]
     = (Polling, \<lparr>last_s = js ''OK'', lastChangeAt_s = 0, yielded = [js ''OK'']\<rparr>)
   \<and> readAnswerInChunks defaultCFG 0 (capture_of [reply (js ''OK'') False 0] None)
     = ([js ''OK''], False)
   \<and> length (js ''OK'') \<le> 5
   \<and> \<not> spinning (getBubbleState 0 (page (reply (js ''OK'') False 0)))
   \<and> observed_final 0 (reply (js ''OK'') True 0) = js ''OK''
   \<and> spinning (getBubbleState 0 (page (reply (js ''OK'') True 0)))
   \<and> observed_final 0 (reply (js ''OK'') False 100) = js ''OK''
   \<and> \<not> spinning (getBubbleState 0 (page (reply (js ''OK'') False 100)))
   \<and> waitForFinalAnswer defaultCFG 0
        (capture_of [reply (js ''OK'') True 0, reply (js ''OK'') False 100] None)
     = None"
  by (simp add: eval_string eval_filter eval_surface eval_capture reply_def)

section \<open>Placeholder filtering\<close>

text \<open>
  The ellipsis pattern accepts exactly the non-empty runs of its class, and
  \<^verbatim>\<open>includes\<close> is containment as a contiguous run.
\<close>

lemma star_greedy_Eol:
  "star_greedy P (\<lambda>q. rx_match ic Eol Some q) p cs = None \<longleftrightarrow> \<not> list_all P cs"
proof (induction cs arbitrary: p)
  case Nil
  show ?case by simp
next
  case (Cons c cs)
  show ?case
  proof (cases "P c")
    case True
    with Cons [of "Some c"] show ?thesis
      by (cases "star_greedy P (\<lambda>q. rx_match ic Eol Some q) (Some c) cs") simp_all
  next
    case False
    then show ?thesis by simp
  qed
qed

lemma ellipsis_rx_inside: "\<not> rx_search False ellipsis_rx (Some c) s"
  by (induction s arbitrary: c) (simp_all add: rx_exec_def ellipsis_rx_def)

lemma ellipsis_rx_iff:
  "rx_test False ellipsis_rx s \<longleftrightarrow> s \<noteq> [] \<and> list_all dotOrSpace s"
proof (cases s)
  case Nil
  then show ?thesis
    by (simp add: rx_test_def rx_exec_def ellipsis_rx_def)
next
  case (Cons c cs)
  have "rx_exec False ellipsis_rx None (c # cs) = None
      \<longleftrightarrow> \<not> dotOrSpace c
        \<or> star_greedy dotOrSpace (\<lambda>q. rx_match False Eol Some q) (Some c) cs = None"
    by (simp add: rx_exec_def ellipsis_rx_def split: option.splits)
  then have "rx_exec False ellipsis_rx None (c # cs) = None
      \<longleftrightarrow> \<not> (dotOrSpace c \<and> list_all dotOrSpace cs)"
    by (simp add: star_greedy_Eol)
  moreover have "rx_test False ellipsis_rx (c # cs)
      \<longleftrightarrow> rx_exec False ellipsis_rx None (c # cs) \<noteq> None"
    by (simp add: rx_test_def ellipsis_rx_inside)
  ultimately have "rx_test False ellipsis_rx (c # cs)
      \<longleftrightarrow> dotOrSpace c \<and> list_all dotOrSpace cs"
    by blast
  with Cons show ?thesis
    by simp
qed

lemma js_includes_sublist: "js_includes s w \<longleftrightarrow> sublist w s"
  by (induction s) (simp_all add: sublist_Cons_right)

lemma isPlaceholderText_iff:
  "isPlaceholderText t \<longleftrightarrow>
     t = [] \<or> (trim t \<noteq> [] \<and> list_all dotOrSpace (trim t))
     \<or> list_ex (\<lambda>w. sublist w (trim t)) placeholders"
  by (auto simp: isPlaceholderText_def Let_def ellipsis_rx_iff js_includes_sublist)

lemma placeholder_silent:
  assumes "isPlaceholderText (observed b p)"
  shows "snd (chunk_step cfg b t0 s p) = s"
  using assms by (simp add: chunk_step_exact)

text \<open>
  Claim C8, as the code has it. The filter leaves \<open>OK\<close> and \<open>OK.\<close> as they are, and
  \<open>OK.\<close> is no placeholder, so for the raw sequence \<open>OK\<close>, \<open>OK.\<close> the stream yields
  \<open>OK\<close> and then the delta \<open>.\<close>. What the loop treats as noise is what
  isPlaceholderText accepts: the empty text, a text that trims to a non-empty run of
  dots, ellipsis characters and white space, and a text that contains one of the seven
  placeholder phrases. A poll that observes such a text yields nothing and leaves the
  emitted text as it is; a poll in time that observes any other text longer than the
  emitted text yields its units beyond the emitted length, so dots added to real text
  are emitted. The read that follows the loop applies no placeholder test: it yields the
  units of any filtered text that is longer than the emitted text.
\<close>

theorem placeholder_filtering:
  "cleanChunk (js ''OK'') = js ''OK''
   \<and> cleanChunk (js ''OK.'') = js ''OK.''
   \<and> \<not> isPlaceholderText (js ''OK.'')
   \<and> readAnswerInChunks defaultCFG 0
        (capture_of [reply (js ''OK'') False 0, reply (js ''OK.'') False 1200,
                     reply (js ''OK.'') False 2400]
           (Some [plain (js ''OK.'') False]))
       = ([js ''OK'', js ''.''], True)
   \<and> (isPlaceholderText t \<longleftrightarrow>
        t = [] \<or> (trim t \<noteq> [] \<and> list_all dotOrSpace (trim t))
        \<or> list_ex (\<lambda>w. sublist w (trim t)) placeholders)
   \<and> (isPlaceholderText (observed b p) \<longrightarrow> snd (chunk_step cfg b t0 s p) = s)
   \<and> (\<not> isPlaceholderText (observed b p) \<and> at_loop p - t0 < MAX_ANSWER_MS cfg
        \<and> length (last_s s) < length (observed b p)
       \<longrightarrow> yielded (snd (chunk_step cfg b t0 s p))
            = yielded s @ [drop (length (last_s s)) (observed b p)])
   \<and> final_read b d s =
       (if length (last_s s) < length (cleanChunk (grabAnswerText b d))
        then yielded s @ [drop (length (last_s s)) (cleanChunk (grabAnswerText b d))]
        else yielded s)"
proof -
  have "cleanChunk (js ''OK'') = js ''OK''"
    by (simp add: eval_string eval_filter)
  moreover have "cleanChunk (js ''OK.'') = js ''OK.''"
    by (simp add: eval_string eval_filter)
  moreover have "\<not> isPlaceholderText (js ''OK.'')"
    by (simp add: eval_string eval_filter)
  moreover have "readAnswerInChunks defaultCFG 0
        (capture_of [reply (js ''OK'') False 0, reply (js ''OK.'') False 1200,
                     reply (js ''OK.'') False 2400]
           (Some [plain (js ''OK.'') False]))
       = ([js ''OK'', js ''.''], True)"
    by (simp add: eval_string eval_filter eval_surface eval_capture reply_def)
  moreover have "\<not> isPlaceholderText (observed b p) \<and> at_loop p - t0 < MAX_ANSWER_MS cfg
        \<and> length (last_s s) < length (observed b p)
       \<longrightarrow> yielded (snd (chunk_step cfg b t0 s p))
            = yielded s @ [drop (length (last_s s)) (observed b p)]"
    by (simp add: chunk_step_exact)
  ultimately show ?thesis
    using isPlaceholderText_iff [of t] placeholder_silent [of b p cfg t0 s]
      final_read_exact [of b d s]
    by blast
qed

text \<open>
  After \<open>OK\<close> has been emitted, a bubble that shows three dots and a space, and one
  that shows \<open>Draft\<close> followed by the phrase U+751F U+6210 U+4E2D, are noise: the poll
  yields nothing. A bubble that shows \<open>OK...\<close> yields the three dots. And when the
  page has shown nothing but three dots until the time is used up, the read after the
  loop yields them.
\<close>

theorem placeholder_filtering_witness:
  "observed 0 (reply (js ''... '') False 100) = js ''...''
   \<and> isPlaceholderText (js ''...'')
   \<and> snd (chunk_step defaultCFG 0 0
          \<lparr>last_s = js ''OK'', lastChangeAt_s = 0, yielded = [js ''OK'']\<rparr>
          (reply (js ''... '') False 100))
       = \<lparr>last_s = js ''OK'', lastChangeAt_s = 0, yielded = [js ''OK'']\<rparr>
   \<and> observed 0 (reply (js ''Draft '' @ [29983, 25104, 20013]) False 100)
       = js ''Draft '' @ [29983, 25104, 20013]
   \<and> isPlaceholderText (js ''Draft '' @ [29983, 25104, 20013])
   \<and> snd (chunk_step defaultCFG 0 0
          \<lparr>last_s = js ''OK'', lastChangeAt_s = 0, yielded = [js ''OK'']\<rparr>
          (reply (js ''Draft '' @ [29983, 25104, 20013]) False 100))
       = \<lparr>last_s = js ''OK'', lastChangeAt_s = 0, yielded = [js ''OK'']\<rparr>
   \<and> yielded (snd (chunk_step defaultCFG 0 0
          \<lparr>last_s = js ''OK'', lastChangeAt_s = 0, yielded = [js ''OK'']\<rparr>
          (reply (js ''OK...'') False 100)))
       = [js ''OK'', js ''...'']
   \<and> final_read 0 (Some [plain (js ''...'') False])
        \<lparr>last_s = [], lastChangeAt_s = 0, yielded = []\<rparr>
       = [js ''...'']
   \<and> readAnswerInChunks defaultCFG 0
        (capture_of [reply (js ''...'') False 0, reply (js ''...'') False 60000]
           (Some [plain (js ''...'') False]))
       = ([js ''...''], True)"
proof -
  let ?s = "\<lparr>last_s = js ''OK'', lastChangeAt_s = 0, yielded = [js ''OK'']\<rparr>"
  let ?i = "\<lparr>last_s = [], lastChangeAt_s = 0, yielded = []\<rparr>"
  let ?dots = "reply (js ''... '') False 100"
  let ?w = "js ''Draft '' @ [29983, 25104, 20013]"
  let ?draft = "reply ?w False 100"
  let ?more = "reply (js ''OK...'') False 100"
  let ?d = "Some [plain (js ''...'') False]"
  note t1 = placeholder_filtering [of "js ''...''" 0 ?dots defaultCFG 0 ?s ?d]
  note t2 = placeholder_filtering [of ?w 0 ?draft defaultCFG 0 ?s ?d]
  note t3 = placeholder_filtering [of ?w 0 ?more defaultCFG 0 ?s ?d]
  note t4 = placeholder_filtering [of ?w 0 ?more defaultCFG 0 ?i ?d]
  have o1: "observed 0 ?dots = js ''...''"
    by (simp add: eval_string eval_filter eval_surface eval_capture reply_def)
  have "trim (js ''...'') \<noteq> [] \<and> list_all dotOrSpace (trim (js ''...''))"
    by (simp add: eval_string dotOrSpace_def)
  with t1 have p1: "isPlaceholderText (js ''...'')"
    by blast
  with t1 o1 have c1: "snd (chunk_step defaultCFG 0 0 ?s ?dots) = ?s"
    by simp
  have o2: "observed 0 ?draft = ?w"
    by (simp add: eval_string eval_filter eval_surface eval_capture reply_def)
  have "trim ?w = ?w"
    by (simp add: eval_string)
  moreover have "sublist [29983, 25104, 20013] ?w"
    using sublist_appendI [of "[29983, 25104, 20013]" "js ''Draft ''" "[]"] by simp
  ultimately have "list_ex (\<lambda>w. sublist w (trim ?w)) placeholders"
    by (simp add: placeholders_def)
  with t2 have p2: "isPlaceholderText ?w"
    by blast
  with t2 o2 have c2: "snd (chunk_step defaultCFG 0 0 ?s ?draft) = ?s"
    by simp
  have o3: "observed 0 ?more = js ''OK...''"
    by (simp add: eval_string eval_filter eval_surface eval_capture reply_def)
  have "\<not> isPlaceholderText (observed 0 ?more) \<and> at_loop ?more - 0 < MAX_ANSWER_MS defaultCFG
      \<and> length (last_s ?s) < length (observed 0 ?more)"
    unfolding o3 by (simp add: eval_string eval_filter eval_capture reply_def)
  with t3 have "yielded (snd (chunk_step defaultCFG 0 0 ?s ?more))
      = yielded ?s @ [drop (length (last_s ?s)) (observed 0 ?more)]"
    by blast
  then have c3: "yielded (snd (chunk_step defaultCFG 0 0 ?s ?more)) = [js ''OK'', js ''...'']"
    unfolding o3 by (simp add: js_def)
  have g: "cleanChunk (grabAnswerText 0 ?d) = js ''...''"
    by (simp add: eval_string eval_filter eval_surface)
  from t4 have "final_read 0 ?d ?i =
       (if length (last_s ?i) < length (cleanChunk (grabAnswerText 0 ?d))
        then yielded ?i @ [drop (length (last_s ?i)) (cleanChunk (grabAnswerText 0 ?d))]
        else yielded ?i)"
    by blast
  then have c4: "final_read 0 ?d ?i = [js ''...'']"
    unfolding g by (simp add: js_def)
  have c5: "readAnswerInChunks defaultCFG 0
        (capture_of [reply (js ''...'') False 0, reply (js ''...'') False 60000] ?d)
       = ([js ''...''], True)"
    by (simp add: eval_string eval_filter eval_surface eval_capture reply_def)
  from o1 p1 c1 o2 p2 c2 c3 c4 c5 show ?thesis
    by blast
qed

text \<open>
  Scenario E as the specification words it fails: the second observation is not reduced
  to \<open>OK\<close>, and the stream does yield a delta for the trailing dot.
\<close>

theorem trailing_dot_counterexample:
  "cleanChunk (js ''OK.'') \<noteq> js ''OK''
   \<and> fst (readAnswerInChunks defaultCFG 0
        (capture_of [reply (js ''OK'') False 0, reply (js ''OK.'') False 100] None))
       = [js ''OK'', js ''.'']"
  by (simp add: eval_string eval_filter eval_surface eval_capture reply_def)

section \<open>Submission failure\<close>

lemmas eval_submit =
  okAfter_def strategyA_def strategyB_def strategyC_def setInputFast_def
  second_commit_def submitPrompt_def unverified_def injection_unverified_def
  after_no_def after_yes_def inject_with_def submit_with_def
  input_not_found_def paste_failed_def submit_not_started_def

lemmas eval_body =
  getField_def truthy_def partText_def extractTextFromMessage_def messagesOf_def
  toPrompt_def wantStream_def user_says_def not_primitive_def

lemmas eval_sanitizer =
  youAreKilo_rx_def currentMode_rx_def kiloCode_rx_def contentString_def
  isKiloRequest_def spread_def hasKey_def allowedTop_def pruneTopFields_def
  rewriteMessages_def dropStreamOptions_def dropModel_def pruneTop_def
  sanitizeKiloRequest_def buildSanitizeOptionsFromCFG_def maybeSanitizeKiloBody_def
  no_rewriting_def

lemmas eval_handler =
  messageOf_def catch_reason_def caught_def turn_def busy_message_def
  chatCompletions_def watchdog_fires_def response_finishes_def response_closes_def
  idle_server_def

lemma unverified_okAfter: "unverified a \<Longrightarrow> okAfter a \<noteq> Some True"
  by (simp add: unverified_def okAfter_def)

lemma unverified_setInputFast:
  assumes "injection_unverified i"
  shows "setInputFast i \<noteq> Inr True"
proof -
  from assms have a: "okAfter (afterA i) \<noteq> Some True" "okAfter (afterB i) \<noteq> Some True"
    "okAfter (afterC i) \<noteq> Some True" "okAfter (afterC2 i) \<noteq> Some True" "\<not> readyD i"
    by (simp_all add: injection_unverified_def unverified_okAfter)
  then have "\<not> strategyA i" "\<not> strategyB i" "\<not> strategyC i"
    by (auto simp: strategyA_def strategyB_def strategyC_def Let_def split: option.splits)
  with a(5) show ?thesis
    by (simp add: setInputFast_def split: option.splits)
qed

lemma unverified_paste_failed:
  assumes "injection_unverified i" "clearA i = None" "clearB i = None" "clearC i = None"
  shows "setInputFast i = Inr False"
proof -
  from assms(2-4) have "\<exists>r. setInputFast i = Inr r"
    by (auto simp: setInputFast_def)
  with unverified_setInputFast [OF assms(1)] show ?thesis
    by auto
qed

lemma unverified_no_commit:
  assumes "injection_unverified (inject ob)"
  shows "\<exists>e. submitPrompt cfg prompt ob = (Inl e, [])"
  using unverified_setInputFast [OF assms]
  by (cases "setInputFast (inject ob)") (auto simp: submitPrompt_def split: option.splits)

lemma catch_reason_paste_failed: "catch_reason paste_failed = js ''proxy_error''"
  by (simp add: catch_reason_def messageOf_def paste_failed_def js_def)

lemma catch_reason_submit_not_started:
  "catch_reason submit_not_started = js ''submit_not_started''"
  by (simp add: catch_reason_def messageOf_def submit_not_started_def js_def)

lemma turn_submit_error:
  assumes "maybeSanitizeKiloBody cfg env body = Inr (sb, ch)" "toPrompt sb = Inr prompt"
    "prompt \<noteq> []" "browser tob = None" "fst (submitPrompt cfg prompt (submit tob)) = Inl e"
  shows "turn cfg env tob body = Some (caught e)"
  using assms by (simp add: turn_def)

text \<open>
  Claim C5. When no strategy's post-condition is verified (after every injection the
  input does not read back as the prompt, the send button is not ready and the input
  holds no text, and the button is not ready at D either), submitPrompt throws without
  having attempted a commit; when besides the input was found and no page call
  rejected, what it throws is paste_failed. The handler answers paste_failed with 502
  and the reason proxy_error, and submit_not_started with the reason
  submit_not_started: the two failures reach the caller as different error objects.
\<close>

theorem submission_failed_distinct:
  assumes "injection_unverified (inject ob)"
  shows "(\<exists>e. submitPrompt cfg prompt ob = (Inl e, []))
    \<and> (idle ob = None \<and> activeInput ob \<and> clearA (inject ob) = None
         \<and> clearB (inject ob) = None \<and> clearC (inject ob) = None
       \<longrightarrow> submitPrompt cfg prompt ob = (Inl paste_failed, [])
           \<and> (\<forall>env s rid tob body sb ch.
                  \<not> busy s \<and> maybeSanitizeKiloBody cfg env body = Inr (sb, ch)
                  \<and> toPrompt sb = Inr prompt \<and> prompt \<noteq> [] \<and> browser tob = None
                  \<and> submit tob = ob
                  \<longrightarrow> snd (chatCompletions cfg env s rid tob body)
                        = Some (JsonError 502 (js ''proxy_error''))))
    \<and> caught paste_failed = JsonError 502 (js ''proxy_error'')
    \<and> caught submit_not_started = JsonError 502 (js ''submit_not_started'')
    \<and> caught paste_failed \<noteq> caught submit_not_started"
proof -
  have a: "\<exists>e. submitPrompt cfg prompt ob = (Inl e, [])"
    by (rule unverified_no_commit [OF assms])
  have b: "submitPrompt cfg prompt ob = (Inl paste_failed, [])"
    if h: "idle ob = None \<and> activeInput ob \<and> clearA (inject ob) = None
         \<and> clearB (inject ob) = None \<and> clearC (inject ob) = None"
  proof -
    from h assms have "setInputFast (inject ob) = Inr False"
      by (simp add: unverified_paste_failed)
    with h show ?thesis
      by (simp add: submitPrompt_def)
  qed
  have c: "snd (chatCompletions cfg env s rid tob body) = Some (JsonError 502 (js ''proxy_error''))"
    if p: "submitPrompt cfg prompt ob = (Inl paste_failed, [])"
      and h: "\<not> busy s \<and> maybeSanitizeKiloBody cfg env body = Inr (sb, ch)
                  \<and> toPrompt sb = Inr prompt \<and> prompt \<noteq> [] \<and> browser tob = None
                  \<and> submit tob = ob"
    for env s rid tob body sb ch
  proof -
    from p h have "fst (submitPrompt cfg prompt (submit tob)) = Inl paste_failed"
      by simp
    with h have "turn cfg env tob body = Some (caught paste_failed)"
      by (simp add: turn_submit_error)
    with h show ?thesis
      by (simp add: chatCompletions_def caught_def catch_reason_paste_failed)
  qed
  have d: "caught paste_failed = JsonError 502 (js ''proxy_error'')"
    by (simp add: caught_def catch_reason_paste_failed)
  have e: "caught submit_not_started = JsonError 502 (js ''submit_not_started'')"
    by (simp add: caught_def catch_reason_submit_not_started)
  have f: "caught paste_failed \<noteq> caught submit_not_started"
    unfolding d e by (simp add: js_def)
  from a b c d e f show ?thesis by blast
qed

text \<open>
  A submission in which no check after any injection succeeds: submitPrompt throws
  paste_failed with no commit attempted, and the handler answers 502 proxy_error. With
  the checks succeeding the same submission returns the baseline 3.
\<close>

theorem submission_failed_distinct_witness:
  "injection_unverified (inject (submit_with after_no 3))
   \<and> submitPrompt defaultCFG (js ''hi'') (submit_with after_no 3) = (Inl paste_failed, [])
   \<and> snd (chatCompletions defaultCFG no_rewriting idle_server 1
          \<lparr>browser = None, submit = submit_with after_no 3, capture = capture_of [] None\<rparr>
          (JObj [(js ''messages'', JArr [user_says (js ''hi'')])]))
       = Some (JsonError 502 (js ''proxy_error''))
   \<and> submitPrompt defaultCFG (js ''hi'') (submit_with after_yes 3)
       = (Inr 3, [PressEnter, ClickSend])"
proof -
  let ?ob = "submit_with after_no 3"
  let ?tob = "\<lparr>browser = None, submit = ?ob, capture = capture_of [] None\<rparr>"
  let ?body = "JObj [(js ''messages'', JArr [user_says (js ''hi'')])]"
  have u: "injection_unverified (inject ?ob)"
    by (simp add: eval_submit)
  note t = submission_failed_distinct [OF u, of defaultCFG "js ''hi''"]
  have pre: "idle ?ob = None \<and> activeInput ?ob \<and> clearA (inject ?ob) = None
         \<and> clearB (inject ?ob) = None \<and> clearC (inject ?ob) = None"
    by (simp add: eval_submit)
  have san: "maybeSanitizeKiloBody defaultCFG no_rewriting ?body = Inr (?body, False)"
    by (simp add: eval_string eval_body eval_sanitizer defaultCFG_def)
  have pr: "toPrompt ?body = Inr (js ''hi'')"
    by (simp add: eval_string eval_body)
  have ne: "js ''hi'' \<noteq> []"
    by (simp add: js_def)
  from t pre have a: "submitPrompt defaultCFG (js ''hi'') ?ob = (Inl paste_failed, [])"
    by blast
  have "\<not> busy idle_server \<and> maybeSanitizeKiloBody defaultCFG no_rewriting ?body = Inr (?body, False)
      \<and> toPrompt ?body = Inr (js ''hi'') \<and> js ''hi'' \<noteq> [] \<and> browser ?tob = None
      \<and> submit ?tob = ?ob"
    using san pr ne by (simp add: idle_server_def)
  with t pre have b: "snd (chatCompletions defaultCFG no_rewriting idle_server 1 ?tob ?body)
       = Some (JsonError 502 (js ''proxy_error''))"
    by blast
  have c: "submitPrompt defaultCFG (js ''hi'') (submit_with after_yes 3)
       = (Inr 3, [PressEnter, ClickSend])"
    by (simp add: eval_submit defaultCFG_def)
  from u a b c show ?thesis by blast
qed

section \<open>The single-flight gate\<close>

lemma turn_not_429: "turn cfg env ob body \<noteq> Some (JsonError 429 m)"
  by (auto simp: turn_def caught_def Let_def
      split: sum.splits option.splits prod.splits if_splits)

lemma admitted:
  assumes "\<not> busy s"
  shows "chatCompletions cfg env s rid ob body
     = (s\<lparr>busy := True, watchdogs := insert rid (watchdogs s),
          onFinish := insert rid (onFinish s), onClose := insert rid (onClose s)\<rparr>,
        turn cfg env ob body)"
  using assms by (simp add: chatCompletions_def)

lemma rejected:
  assumes "busy s"
  shows "chatCompletions cfg env s rid ob body = (s, Some (JsonError 429 busy_message))"
  using assms by (simp add: chatCompletions_def)

text \<open>
  Claim C6. A request that arrives while busy is set is answered at once with status
  429 and the busy error object, and leaves the server as it was: nothing is queued. A
  request that arrives while busy is clear sets it, so a second request is rejected for
  as long as the first is in flight; once the first releases the gate (its watchdog
  fires, or its response finishes or closes), busy is clear again and the retried
  request is admitted: it sets busy anew and is answered by its own turn, never by 429.
\<close>

theorem single_flight:
  "(busy s \<longrightarrow>
      chatCompletions cfg env s rid ob body = (s, Some (JsonError 429 busy_message)))
   \<and> (\<not> busy s \<longrightarrow>
        busy (fst (chatCompletions cfg env s rid ob body))
        \<and> chatCompletions cfg env (fst (chatCompletions cfg env s rid ob body)) rid' ob' body'
            = (fst (chatCompletions cfg env s rid ob body), Some (JsonError 429 busy_message))
        \<and> (\<forall>release\<in>{watchdog_fires rid, response_finishes rid, response_closes rid}.
              \<not> busy (release (fst (chatCompletions cfg env s rid ob body)))
              \<and> busy (fst (chatCompletions cfg env
                     (release (fst (chatCompletions cfg env s rid ob body))) rid' ob' body'))
              \<and> snd (chatCompletions cfg env
                     (release (fst (chatCompletions cfg env s rid ob body))) rid' ob' body')
                  = turn cfg env ob' body'
              \<and> snd (chatCompletions cfg env
                     (release (fst (chatCompletions cfg env s rid ob body))) rid' ob' body')
                  \<noteq> Some (JsonError 429 busy_message)))"
proof -
  have a: "chatCompletions cfg env s rid ob body = (s, Some (JsonError 429 busy_message))"
    if "busy s"
    using that by (rule rejected)
  have b: "busy s1
      \<and> chatCompletions cfg env s1 rid' ob' body' = (s1, Some (JsonError 429 busy_message))
      \<and> (\<forall>release\<in>{watchdog_fires rid, response_finishes rid, response_closes rid}.
            \<not> busy (release s1)
            \<and> busy (fst (chatCompletions cfg env (release s1) rid' ob' body'))
            \<and> snd (chatCompletions cfg env (release s1) rid' ob' body') = turn cfg env ob' body'
            \<and> snd (chatCompletions cfg env (release s1) rid' ob' body')
                \<noteq> Some (JsonError 429 busy_message))"
    if n: "\<not> busy s" and s1: "s1 = fst (chatCompletions cfg env s rid ob body)"
    for s1
  proof -
    from n s1 have e: "s1 = s\<lparr>busy := True, watchdogs := insert rid (watchdogs s),
          onFinish := insert rid (onFinish s), onClose := insert rid (onClose s)\<rparr>"
      by (simp add: admitted)
    then have b1: "busy s1" by simp
    from e have r: "\<not> busy (watchdog_fires rid s1)" "\<not> busy (response_finishes rid s1)"
      "\<not> busy (response_closes rid s1)"
      by (simp_all add: watchdog_fires_def response_finishes_def response_closes_def)
    have "busy (fst (chatCompletions cfg env s2 rid' ob' body'))
        \<and> snd (chatCompletions cfg env s2 rid' ob' body') = turn cfg env ob' body'
        \<and> snd (chatCompletions cfg env s2 rid' ob' body') \<noteq> Some (JsonError 429 busy_message)"
      if "\<not> busy s2" for s2
      using that by (simp add: admitted turn_not_429)
    with r b1 rejected [OF b1] show ?thesis
      by (simp add: turn_not_429)
  qed
  from a b show ?thesis by blast
qed

text \<open>
  Scenario D of the specification on an idle server: request 1 is admitted, request 2
  is rejected with 429 while it is in flight, and after request 1 has released the gate
  in any of the three ways, the retried request 2 is admitted and answered with the
  reply.
\<close>

theorem single_flight_witness:
  "\<not> busy idle_server
   \<and> busy (fst (chatCompletions defaultCFG no_rewriting idle_server 1 reply_ok aggregate_hi))
   \<and> chatCompletions defaultCFG no_rewriting
        (fst (chatCompletions defaultCFG no_rewriting idle_server 1 reply_ok aggregate_hi))
        2 reply_ok aggregate_hi
       = (fst (chatCompletions defaultCFG no_rewriting idle_server 1 reply_ok aggregate_hi),
          Some (JsonError 429 busy_message))
   \<and> snd (chatCompletions defaultCFG no_rewriting
          (response_finishes 1
            (fst (chatCompletions defaultCFG no_rewriting idle_server 1 reply_ok aggregate_hi)))
          2 reply_ok aggregate_hi)
       = Some (ChatCompletion (js ''OK''))
   \<and> snd (chatCompletions defaultCFG no_rewriting
          (response_closes 1
            (fst (chatCompletions defaultCFG no_rewriting idle_server 1 reply_ok aggregate_hi)))
          2 reply_ok aggregate_hi)
       = Some (ChatCompletion (js ''OK''))
   \<and> snd (chatCompletions defaultCFG no_rewriting
          (watchdog_fires 1
            (fst (chatCompletions defaultCFG no_rewriting idle_server 1 reply_ok aggregate_hi)))
          2 reply_ok aggregate_hi)
       = Some (ChatCompletion (js ''OK''))"
proof -
  let ?s1 = "fst (chatCompletions defaultCFG no_rewriting idle_server 1 reply_ok aggregate_hi)"
  note t = single_flight [of idle_server defaultCFG no_rewriting 1 reply_ok aggregate_hi
      2 reply_ok aggregate_hi]
  note u = single_flight [of ?s1 defaultCFG no_rewriting 2 reply_ok aggregate_hi]
  have n: "\<not> busy idle_server"
    by (simp add: idle_server_def)
  have tn: "turn defaultCFG no_rewriting reply_ok aggregate_hi = Some (ChatCompletion (js ''OK''))"
    by (simp add: eval_string eval_filter eval_surface eval_capture eval_submit eval_body
        eval_sanitizer eval_handler reply_ok_def aggregate_hi_def)
  from t n have a: "busy ?s1"
    by blast
  with u have b: "chatCompletions defaultCFG no_rewriting ?s1 2 reply_ok aggregate_hi
      = (?s1, Some (JsonError 429 busy_message))"
    by blast
  from t n have r: "\<forall>release\<in>{watchdog_fires 1, response_finishes 1, response_closes 1}.
      snd (chatCompletions defaultCFG no_rewriting (release ?s1) 2 reply_ok aggregate_hi)
        = turn defaultCFG no_rewriting reply_ok aggregate_hi"
    by blast
  from r tn
  have c: "snd (chatCompletions defaultCFG no_rewriting (response_finishes 1 ?s1) 2
        reply_ok aggregate_hi) = Some (ChatCompletion (js ''OK''))"
    by simp
  from r tn
  have d: "snd (chatCompletions defaultCFG no_rewriting (response_closes 1 ?s1) 2
        reply_ok aggregate_hi) = Some (ChatCompletion (js ''OK''))"
    by simp
  from r tn
  have e: "snd (chatCompletions defaultCFG no_rewriting (watchdog_fires 1 ?s1) 2
        reply_ok aggregate_hi) = Some (ChatCompletion (js ''OK''))"
    by simp
  from n a b c d e show ?thesis by blast
qed

section \<open>The stream flag\<close>

text \<open>The sanitizer never touches the top-level key stream.\<close>

lemma getField_spread: "getField payload k = map_of (spread payload) k"
  by (cases payload) (simp_all add: getField_def spread_def)

lemma map_of_pruneTopFields:
  "k \<in> set allowedTop \<Longrightarrow> map_of (pruneTopFields kvs) k = map_of kvs k"
  by (induction kvs) (auto simp: pruneTopFields_def)

lemma stream_allowed: "js ''stream'' \<in> set allowedTop"
  by (simp add: allowedTop_def)

lemma rewriteMessages_stream:
  assumes "rewriteMessages env payload opts = Inr (n, c, r)"
  shows "map_of n (js ''stream'') = map_of (spread payload) (js ''stream'')"
proof -
  have ne: "js ''stream'' \<noteq> js ''messages''"
    by (simp add: js_def)
  from assms consider ms where "n = AList.update (js ''messages'') ms (spread payload)"
    | "n = spread payload"
    by (auto simp: rewriteMessages_def split: if_splits sum.splits)
  then show ?thesis
    using ne by cases (simp_all add: update_conv')
qed

lemma dropStreamOptions_stream:
  assumes "dropStreamOptions opts (n, c, r) = (n', c', r')"
  shows "map_of n' (js ''stream'') = map_of n (js ''stream'')"
proof -
  have ne: "js ''stream'' \<noteq> js ''stream_options''"
    by (simp add: js_def)
  from assms consider "n' = AList.delete (js ''stream_options'') n" | "n' = n"
    by (auto simp: dropStreamOptions_def split: if_splits)
  then show ?thesis
    using ne by cases (simp_all add: delete_conv')
qed

lemma dropModel_stream:
  assumes "dropModel env opts (n, c, r) = Inr (n', c', r')"
  shows "map_of n' (js ''stream'') = map_of n (js ''stream'')"
proof -
  have ne: "js ''stream'' \<noteq> js ''model''"
    by (simp add: js_def)
  from assms consider "n' = AList.delete (js ''model'') n" | "n' = n"
    by (auto simp: dropModel_def split: if_splits sum.splits)
  then show ?thesis
    using ne by cases (simp_all add: delete_conv')
qed

lemma pruneTop_stream:
  assumes "pruneTop opts (n, c, r) = (n', c', r')"
  shows "map_of n' (js ''stream'') = map_of n (js ''stream'')"
proof -
  from assms consider "n' = pruneTopFields n" | "n' = n"
    by (auto simp: pruneTop_def split: if_splits)
  then show ?thesis
    by cases (simp_all add: map_of_pruneTopFields stream_allowed)
qed

lemma sanitizeKiloRequest_stream:
  assumes "sanitizeKiloRequest env payload opts = Inr res"
  shows "getField (json res) (js ''stream'') = getField payload (js ''stream'')"
proof (cases "isKiloRequest payload")
  case False
  with assms show ?thesis
    by (auto simp: sanitizeKiloRequest_def Let_def)
next
  case True
  with assms obtain w1 w3 where
    s1': "rewriteMessages env payload opts = Inr w1"
    and s3': "dropModel env opts (dropStreamOptions opts w1) = Inr w3"
    and j': "json res = JObj (fst (pruneTop opts w3))"
    by (auto simp: sanitizeKiloRequest_def Let_def split: sum.splits prod.splits)
  obtain n1 c1 r1 where w1: "w1 = (n1, c1, r1)"
    by (cases w1)
  obtain n2 c2 r2 where s2: "dropStreamOptions opts (n1, c1, r1) = (n2, c2, r2)"
    by (cases "dropStreamOptions opts (n1, c1, r1)")
  obtain n3 c3 r3 where w3: "w3 = (n3, c3, r3)"
    by (cases w3)
  obtain n4 c4 r4 where s4: "pruneTop opts (n3, c3, r3) = (n4, c4, r4)"
    by (cases "pruneTop opts (n3, c3, r3)")
  from s1' w1 have s1: "rewriteMessages env payload opts = Inr (n1, c1, r1)"
    by simp
  from s3' w1 s2 w3 have s3: "dropModel env opts (n2, c2, r2) = Inr (n3, c3, r3)"
    by simp
  from j' w3 s4 have j: "json res = JObj n4"
    by simp
  from rewriteMessages_stream [OF s1] dropStreamOptions_stream [OF s2]
    dropModel_stream [OF s3] pruneTop_stream [OF s4]
  have "map_of n4 (js ''stream'') = map_of (spread payload) (js ''stream'')"
    by simp
  moreover from j have "getField (json res) (js ''stream'') = map_of n4 (js ''stream'')"
    by (simp add: getField_def)
  ultimately show ?thesis
    by (simp add: getField_spread [of payload])
qed

lemma maybeSanitizeKiloBody_stream:
  assumes "maybeSanitizeKiloBody cfg env body = Inr (sb, ch)"
  shows "getField sb (js ''stream'') = getField body (js ''stream'')"
proof (cases "SAN_ON cfg")
  case False
  with assms show ?thesis
    by (simp add: maybeSanitizeKiloBody_def)
next
  case True
  with assms obtain res where
    r: "sanitizeKiloRequest env body (buildSanitizeOptionsFromCFG cfg) = Inr res"
    and s: "sb = json res"
    by (auto simp: maybeSanitizeKiloBody_def split: sum.splits)
  from sanitizeKiloRequest_stream [OF r] s show ?thesis
    by simp
qed

lemma wantStream_default:
  assumes "\<forall>b. getField body (js ''stream'') \<noteq> Some (JBool b)"
  shows "wantStream body"
  using assms
  by (auto simp: wantStream_def split: option.splits jsonval.splits)

lemma turn_streaming:
  assumes "\<And>sb ch. maybeSanitizeKiloBody cfg env body = Inr (sb, ch) \<Longrightarrow> wantStream sb"
  shows "turn cfg env ob body \<noteq> Some (ChatCompletion t)"
proof (cases "maybeSanitizeKiloBody cfg env body")
  case (Inl e)
  then show ?thesis
    by (simp add: turn_def caught_def)
next
  case (Inr r)
  obtain sb ch where r: "r = (sb, ch)"
    by (cases r)
  with Inr assms have "wantStream sb"
    by simp
  with Inr r show ?thesis
    by (auto simp: turn_def caught_def Let_def
        split: sum.splits option.splits prod.splits if_splits)
qed

lemma turn_event_stream:
  assumes "maybeSanitizeKiloBody cfg env body = Inr (sb, ch)" "wantStream sb"
    "toPrompt sb = Inr prompt" "prompt \<noteq> []" "browser ob = None"
    "fst (submitPrompt cfg prompt (submit ob)) = Inr baseline"
    "readAnswerInChunks cfg baseline (capture ob) = (deltas, True)"
  shows "turn cfg env ob body = Some (EventStream deltas)"
  using assms by (simp add: turn_def)

text \<open>
  Claim C9. When the top-level field stream of the request body is absent or is no
  boolean, wantStream is true of the body, and of the body the sanitizer hands on, which
  keeps the field as it is. The handler then never answers with the aggregate
  chat.completion payload; and when the request is admitted, the prompt is not empty,
  the submission succeeds and the generator finishes, it answers with the event stream
  of the yielded deltas.
\<close>

theorem implicit_stream_default:
  assumes "\<forall>b. getField body (js ''stream'') \<noteq> Some (JBool b)"
  shows "wantStream body
    \<and> (\<forall>sb ch. maybeSanitizeKiloBody cfg env body = Inr (sb, ch) \<longrightarrow> wantStream sb)
    \<and> (\<forall>t. snd (chatCompletions cfg env s rid ob body) \<noteq> Some (ChatCompletion t))
    \<and> (\<forall>sb ch prompt baseline deltas.
          \<not> busy s \<and> maybeSanitizeKiloBody cfg env body = Inr (sb, ch)
          \<and> toPrompt sb = Inr prompt \<and> prompt \<noteq> [] \<and> browser ob = None
          \<and> fst (submitPrompt cfg prompt (submit ob)) = Inr baseline
          \<and> readAnswerInChunks cfg baseline (capture ob) = (deltas, True)
          \<longrightarrow> snd (chatCompletions cfg env s rid ob body) = Some (EventStream deltas))"
proof -
  have a: "wantStream body"
    by (rule wantStream_default [OF assms])
  have b: "wantStream sb" if "maybeSanitizeKiloBody cfg env body = Inr (sb, ch)" for sb ch
  proof (rule wantStream_default)
    from maybeSanitizeKiloBody_stream [OF that] assms
    show "\<forall>b. getField sb (js ''stream'') \<noteq> Some (JBool b)"
      by simp
  qed
  have c: "snd (chatCompletions cfg env s rid ob body) \<noteq> Some (ChatCompletion t)" for t
    using turn_streaming [of cfg env body ob t] b
    by (auto simp: chatCompletions_def)
  have d: "snd (chatCompletions cfg env s rid ob body) = Some (EventStream deltas)"
    if "\<not> busy s \<and> maybeSanitizeKiloBody cfg env body = Inr (sb, ch)
          \<and> toPrompt sb = Inr prompt \<and> prompt \<noteq> [] \<and> browser ob = None
          \<and> fst (submitPrompt cfg prompt (submit ob)) = Inr baseline
          \<and> readAnswerInChunks cfg baseline (capture ob) = (deltas, True)"
    for sb ch prompt baseline deltas
    using that b [of sb ch] turn_event_stream [of cfg env body sb ch prompt ob baseline deltas]
    by (simp add: chatCompletions_def)
  from a b c d show ?thesis by blast
qed

text \<open>
  A body without the field stream, and one whose stream is the string yes: both are
  answered with the event stream of the reply. The same body with stream false is
  answered with the aggregate payload.
\<close>

theorem implicit_stream_default_witness:
  "wantStream (JObj [(js ''messages'', JArr [user_says (js ''hi'')])])
   \<and> snd (chatCompletions defaultCFG no_rewriting idle_server 1
          \<lparr>browser = None, submit = submit_with after_yes 0,
             capture = capture_of [tick 0 (Some [plain (js ''Hello world'') False]),
                                   tick 1200 (Some [plain (js ''Hello world'') False])]
                         (Some [plain (js ''Hello world'') False])\<rparr>
          (JObj [(js ''messages'', JArr [user_says (js ''hi'')])]))
       = Some (EventStream [js ''Hello world''])
   \<and> snd (chatCompletions defaultCFG no_rewriting idle_server 1
          \<lparr>browser = None, submit = submit_with after_yes 0,
             capture = capture_of [tick 0 (Some [plain (js ''Hello world'') False]),
                                   tick 1200 (Some [plain (js ''Hello world'') False])]
                         (Some [plain (js ''Hello world'') False])\<rparr>
          (JObj [(js ''messages'', JArr [user_says (js ''hi'')]),
                 (js ''stream'', JStr (js ''yes''))]))
       = Some (EventStream [js ''Hello world''])
   \<and> snd (chatCompletions defaultCFG no_rewriting idle_server 1
          \<lparr>browser = None, submit = submit_with after_yes 0,
             capture = capture_of [tick 0 (Some [plain (js ''Hello world'') False]),
                                   tick 1200 (Some [plain (js ''Hello world'') False])]
                         (Some [plain (js ''Hello world'') False])\<rparr>
          (JObj [(js ''messages'', JArr [user_says (js ''hi'')]),
                 (js ''stream'', JBool False)]))
       = Some (ChatCompletion (js ''Hello world''))"
proof -
  let ?cap = "capture_of [tick 0 (Some [plain (js ''Hello world'') False]),
                          tick 1200 (Some [plain (js ''Hello world'') False])]
                (Some [plain (js ''Hello world'') False])"
  let ?ob = "\<lparr>browser = None, submit = submit_with after_yes 0, capture = ?cap\<rparr>"
  let ?b1 = "JObj [(js ''messages'', JArr [user_says (js ''hi'')])]"
  let ?b2 = "JObj [(js ''messages'', JArr [user_says (js ''hi'')]),
                   (js ''stream'', JStr (js ''yes''))]"
  let ?b3 = "JObj [(js ''messages'', JArr [user_says (js ''hi'')]),
                   (js ''stream'', JBool False)]"
  have h1: "\<forall>b. getField ?b1 (js ''stream'') \<noteq> Some (JBool b)"
    by (simp add: getField_def js_def)
  have h2: "\<forall>b. getField ?b2 (js ''stream'') \<noteq> Some (JBool b)"
    by (simp add: getField_def js_def)
  note t1 = implicit_stream_default [OF h1, of defaultCFG no_rewriting idle_server 1 ?ob]
  note t2 = implicit_stream_default [OF h2, of defaultCFG no_rewriting idle_server 1 ?ob]
  have n: "\<not> busy idle_server"
    by (simp add: idle_server_def)
  have s1: "maybeSanitizeKiloBody defaultCFG no_rewriting ?b1 = Inr (?b1, False)"
    by (simp add: eval_string eval_body eval_sanitizer defaultCFG_def)
  have s2: "maybeSanitizeKiloBody defaultCFG no_rewriting ?b2 = Inr (?b2, False)"
    by (simp add: eval_string eval_body eval_sanitizer defaultCFG_def)
  have p1: "toPrompt ?b1 = Inr (js ''hi'')"
    by (simp add: eval_string eval_body)
  have p2: "toPrompt ?b2 = Inr (js ''hi'')"
    by (simp add: eval_string eval_body)
  have ne: "js ''hi'' \<noteq> []"
    by (simp add: js_def)
  have sp: "fst (submitPrompt defaultCFG (js ''hi'') (submit ?ob)) = Inr 0"
    by (simp add: eval_submit defaultCFG_def)
  have rd: "readAnswerInChunks defaultCFG 0 (capture ?ob) = ([js ''Hello world''], True)"
    by (simp add: eval_string eval_filter eval_surface eval_capture)
  have br: "browser ?ob = None"
    by simp
  from t1 have a: "wantStream ?b1"
    by blast
  from t1 n s1 p1 ne br sp rd
  have b: "snd (chatCompletions defaultCFG no_rewriting idle_server 1 ?ob ?b1)
      = Some (EventStream [js ''Hello world''])"
    by blast
  from t2 n s2 p2 ne br sp rd
  have c: "snd (chatCompletions defaultCFG no_rewriting idle_server 1 ?ob ?b2)
      = Some (EventStream [js ''Hello world''])"
    by blast
  have d: "snd (chatCompletions defaultCFG no_rewriting idle_server 1 ?ob ?b3)
      = Some (ChatCompletion (js ''Hello world''))"
    by (simp add: eval_string eval_filter eval_surface eval_capture eval_submit eval_body
        eval_sanitizer eval_handler)
  from a b c d show ?thesis by blast
qed

section \<open>Sanitizer passthrough\<close>

text \<open>
  Claim C10. For a payload of which isKiloRequest is false (no string content of its
  messages, joined by line feeds, matches one of the three patterns), whatever the
  options, sanitizeKiloRequest returns the payload itself, with changed false, the
  reason passthrough, and bytesAfter equal to bytesBefore, the size of the payload; and
  the handler goes on with the body as it came.
\<close>

theorem sanitizer_passthrough:
  assumes "\<not> isKiloRequest payload"
  shows "sanitizeKiloRequest env payload opts
      = Inr \<lparr>json = payload, changed = False, reason = js ''passthrough'',
             bytesBefore = byteLength env payload, bytesAfter = byteLength env payload\<rparr>
    \<and> maybeSanitizeKiloBody cfg env payload = Inr (payload, False)"
  using assms
  by (simp add: sanitizeKiloRequest_def maybeSanitizeKiloBody_def Let_def)

text \<open>
  An ordinary request, of 91 bytes as JSON text, passes through unchanged under the
  default options, which would strip stream_options and model from a Kilo Code request.
  The same request with a message that introduces Kilo Code is recognised as one.
\<close>

theorem sanitizer_passthrough_witness:
  "\<not> isKiloRequest
       (JObj [(js ''model'', JStr (js ''gemini-webui'')),
              (js ''messages'', JArr [user_says (js ''hello'')]),
              (js ''stream_options'', JObj [])])
   \<and> sanitizeKiloRequest (no_rewriting\<lparr>byteLength := (\<lambda>v. 91)\<rparr>)
       (JObj [(js ''model'', JStr (js ''gemini-webui'')),
              (js ''messages'', JArr [user_says (js ''hello'')]),
              (js ''stream_options'', JObj [])])
       (buildSanitizeOptionsFromCFG defaultCFG)
     = Inr \<lparr>json = JObj [(js ''model'', JStr (js ''gemini-webui'')),
                          (js ''messages'', JArr [user_says (js ''hello'')]),
                          (js ''stream_options'', JObj [])],
            changed = False, reason = js ''passthrough'', bytesBefore = 91, bytesAfter = 91\<rparr>
   \<and> isKiloRequest
       (JObj [(js ''model'', JStr (js ''gemini-webui'')),
              (js ''messages'', JArr [user_says (js ''You are kilo code.'')]),
              (js ''stream_options'', JObj [])])"
proof -
  let ?env = "no_rewriting\<lparr>byteLength := (\<lambda>v. 91)\<rparr>"
  let ?p = "JObj [(js ''model'', JStr (js ''gemini-webui'')),
              (js ''messages'', JArr [user_says (js ''hello'')]),
              (js ''stream_options'', JObj [])]"
  let ?k = "JObj [(js ''model'', JStr (js ''gemini-webui'')),
              (js ''messages'', JArr [user_says (js ''You are kilo code.'')]),
              (js ''stream_options'', JObj [])]"
  have n: "\<not> isKiloRequest ?p"
    by (simp add: eval_string eval_body eval_sanitizer)
  from sanitizer_passthrough [OF n, of ?env "buildSanitizeOptionsFromCFG defaultCFG"]
  have a: "sanitizeKiloRequest ?env ?p (buildSanitizeOptionsFromCFG defaultCFG)
     = Inr \<lparr>json = ?p, changed = False, reason = js ''passthrough'',
            bytesBefore = 91, bytesAfter = 91\<rparr>"
    by (simp add: no_rewriting_def)
  have k: "isKiloRequest ?k"
    by (simp add: eval_string eval_body eval_sanitizer)
  from n a k show ?thesis by blast
qed

end
